theory Spec2Isabelle
  imports Complex_Main
begin

section \<open>JavaScript values used by the handlers\<close>

text \<open>
  A request field that the source reads as a string may be missing (\<open>undefined\<close>):
  it is a \<open>string option\<close>. JavaScript's \<open>!x\<close> holds of \<open>undefined\<close> and of the
  empty string.
\<close>

definition falsy :: "string option \<Rightarrow> bool" where
  "falsy x = (case x of None \<Rightarrow> True | Some s \<Rightarrow> s = [])"

text \<open>
  The number a pagination parameter holds: \<open>parseInt\<close> gives \<open>NaN\<close> or an integer.
  \<open>a || b\<close> is \<open>b\<close> when \<open>a\<close> is \<open>NaN\<close> or zero.
\<close>

datatype jsnum = NaN | Num int

fun truthy :: "jsnum \<Rightarrow> bool" where
  "truthy NaN = False"
| "truthy (Num n) = (n \<noteq> 0)"

definition or_else :: "jsnum \<Rightarrow> jsnum \<Rightarrow> jsnum" where
  "or_else a b = (if truthy a then a else b)"

section \<open>JavaScript numbers\<close>

text \<open>
  A JavaScript number is a double. A finite one is kept as its sign and its exact
  value, a fraction of naturals; \<open>Finite True 0 1\<close> is \<open>-0\<close>. The integers used here
  (counts, their sums and differences, the constant 100) are doubles as they are, being
  below \<open>2 ^ 53\<close> in magnitude. The limits of the exponent are not modelled: overflow to
  Infinity and gradual underflow need magnitudes above \<open>2 ^ 1023\<close> or below
  \<open>2 ^ -1022\<close>, out of reach of quotients of such integers.
\<close>

datatype number = NotANumber | Infinity bool | Finite bool nat nat

definition number_of :: "int \<Rightarrow> number" where
  "number_of i = Finite (i < 0) (nat \<bar>i\<bar>) 1"

text \<open>The real a finite number stands for.\<close>

definition number_value :: "bool \<Rightarrow> nat \<Rightarrow> nat \<Rightarrow> real" where
  "number_value negative n d = (if negative then - (real n / real d) else real n / real d)"

text \<open>The number of binary digits of a natural.\<close>

fun bit_length :: "nat \<Rightarrow> nat" where
  "bit_length n = (if n = 0 then 0 else Suc (bit_length (n div 2)))"

declare bit_length.simps [simp del]

text \<open>\<open>n / d\<close> rounded to the nearest integer, to the even one on a tie.\<close>

definition nearest_even :: "nat \<Rightarrow> nat \<Rightarrow> nat" where
  "nearest_even n d =
     (let q = n div d; r = n mod d
      in if 2 * r < d then q else if d < 2 * r then q + 1 else if even q then q else q + 1)"

text \<open>
  The double nearest to \<open>n / d\<close> (round to nearest, ties to even, 53 significant
  bits), as a fraction. With \<open>B\<close> the bit length of \<open>d\<close> and \<open>L\<close> that of
  \<open>n * 2 ^ B div d\<close>, the quotient lies between \<open>2 ^ (L - 1 - B)\<close> and
  \<open>2 ^ (L - B)\<close>, so it is rounded to a multiple of \<open>2 ^ (L - B - 53)\<close>.
\<close>

definition to_double :: "nat \<Rightarrow> nat \<Rightarrow> nat \<times> nat" where
  "to_double n d =
     (if n = 0 then (0, 1)
      else
        let B = bit_length d;
            L = bit_length ((n * 2 ^ B) div d)
        in if L \<le> 53 + B
           then (nearest_even (n * 2 ^ (53 + B - L)) d, 2 ^ (53 + B - L))
           else (nearest_even n (d * 2 ^ (L - 53 - B)) * 2 ^ (L - 53 - B), 1))"

definition fraction :: "nat \<times> nat \<Rightarrow> real" where
  "fraction x = real (fst x) / real (snd x)"

text \<open>The operators \<open>/\<close> and \<open>*\<close>: the exact result, rounded to a double.\<close>

fun js_div :: "number \<Rightarrow> number \<Rightarrow> number" where
  "js_div (Finite s1 n1 d1) (Finite s2 n2 d2) =
     (if n2 = 0 then (if n1 = 0 then NotANumber else Infinity (s1 \<noteq> s2))
      else case to_double (n1 * d2) (d1 * n2) of (n, d) \<Rightarrow> Finite (s1 \<noteq> s2) n d)"
| "js_div (Finite s1 n1 d1) (Infinity s2) = Finite (s1 \<noteq> s2) 0 1"
| "js_div (Infinity s1) (Finite s2 n2 d2) = Infinity (s1 \<noteq> s2)"
| "js_div (Infinity s1) (Infinity s2) = NotANumber"
| "js_div NotANumber y = NotANumber"
| "js_div x NotANumber = NotANumber"

fun js_mul :: "number \<Rightarrow> number \<Rightarrow> number" where
  "js_mul (Finite s1 n1 d1) (Finite s2 n2 d2) =
     (case to_double (n1 * n2) (d1 * d2) of (n, d) \<Rightarrow> Finite (s1 \<noteq> s2) n d)"
| "js_mul (Finite s1 n1 d1) (Infinity s2) = (if n1 = 0 then NotANumber else Infinity (s1 \<noteq> s2))"
| "js_mul (Infinity s1) (Finite s2 n2 d2) = (if n2 = 0 then NotANumber else Infinity (s1 \<noteq> s2))"
| "js_mul (Infinity s1) (Infinity s2) = Infinity (s1 \<noteq> s2)"
| "js_mul NotANumber y = NotANumber"
| "js_mul x NotANumber = NotANumber"

text \<open>
  \<open>x.toFixed(digits)\<close> prints \<open>n / 10 ^ digits\<close> for the integer \<open>n\<close> that makes it
  nearest to the exact value of the double \<open>x\<close>, the larger \<open>n\<close> on a tie, after the
  sign of \<open>x\<close>; NaN and the infinities are printed by name. The string is kept as the
  sign and \<open>n\<close>. (Magnitudes from \<open>10 ^ 21\<close> on are printed in exponent notation;
  percentages of counts below \<open>2 ^ 53\<close> stay below that.)
\<close>

datatype fixed = NaNString | InfinityString bool | Decimal bool nat

fun toFixed :: "nat \<Rightarrow> number \<Rightarrow> fixed" where
  "toFixed digits NotANumber = NaNString"
| "toFixed digits (Infinity s) = InfinityString s"
| "toFixed digits (Finite s n d) = Decimal s ((2 * n * 10 ^ digits + d) div (2 * d))"

text \<open>\<open>parseFloat\<close> of such a string: the double nearest to the decimal.\<close>

fun parseFloat :: "nat \<Rightarrow> fixed \<Rightarrow> number" where
  "parseFloat digits NaNString = NotANumber"
| "parseFloat digits (InfinityString s) = Infinity s"
| "parseFloat digits (Decimal s h) =
     (case to_double h (10 ^ digits) of (n, d) \<Rightarrow> Finite s n d)"

section \<open>SDK: the client batching buffer (class Analytics)\<close>

text \<open>
  The rejected promise of the HTTP client: \<open>error.response?.data?.error\<close> and
  \<open>error.message\<close>.
\<close>

record http_error =
  response_error :: "string option"
  message :: string

text \<open>
  The fields of \<open>Analytics\<close> that \<open>flush\<close> touches, together with what it does to the
  outside: the bodies posted to \<open>/track/batch\<close> and the lines of \<open>console.error\<close>.
  The queue's elements are never inspected, so their type is a parameter.
\<close>

record 'e analytics =
  eventQueue :: "'e list"
  posted :: "'e list list"
  sdk_console :: "string list"

text \<open>What \<open>flush\<close> resolves to: \<open>{success: true, count: 0}\<close> or the server's reply.\<close>

datatype 'r flush_data = NothingQueued | ServerData 'r

text \<open>
  What \<open>flush\<close> throws: the rejection of the request, or the \<open>RangeError\<close> of a
  call with more arguments than the engine takes.
\<close>

datatype flush_error = Rejected http_error | RangeError

definition handleError :: "string \<Rightarrow> http_error \<Rightarrow> 'e analytics \<Rightarrow> 'e analytics" where
  "handleError operation err s =
     (let errorMessage = (if falsy (response_error err) then message err
                          else the (response_error err))
      in s\<lparr>sdk_console := sdk_console s @ [''Analytics '' @ operation @ '' error: '' @ errorMessage]\<rparr>)"

text \<open>
  \<open>flush\<close>. The transport \<open>post\<close> is the awaited request: \<open>Inl\<close> is a rejected promise.
  While the request is awaited other calls of \<open>track\<close> may push onto the emptied
  queue; \<open>interim\<close> is what the queue holds when the request settles (\<open>[]\<close> when
  nothing ran in between). In the \<open>catch\<close> block \<open>this.eventQueue.unshift(...events)\<close>
  passes every event as an argument of one call: with more than \<open>max_args\<close> events
  (the limit of the engine) the call throws a \<open>RangeError\<close> before it changes the
  queue, and neither \<open>handleError\<close> nor \<open>throw error\<close> is reached.
\<close>

definition flush ::
  "nat \<Rightarrow> ('e list \<Rightarrow> http_error + 'r) \<Rightarrow> 'e list \<Rightarrow> 'e analytics
     \<Rightarrow> 'e analytics \<times> (flush_error + 'r flush_data)" where
  "flush max_args post interim s =
     (if length (eventQueue s) = 0 then (s, Inr NothingQueued)
      else
        let events = eventQueue s;
            s1 = s\<lparr>eventQueue := [], posted := posted s @ [events]\<rparr>
        in case post events of
             Inr data \<Rightarrow> (s1\<lparr>eventQueue := interim\<rparr>, Inr (ServerData data))
           | Inl err \<Rightarrow>
               if length events > max_args
               then (s1\<lparr>eventQueue := interim\<rparr>, Inl RangeError)
               else (handleError ''flush'' err (s1\<lparr>eventQueue := events @ interim\<rparr>),
                     Inl (Rejected err)))"

section \<open>Query facade: pagination of searchEvents\<close>

text \<open>
  \<open>searchEvents\<close> builds \<open>size: query.limit || 100\<close> and \<open>from: query.offset || 0\<close>;
  a field of \<open>query\<close> may be absent.
\<close>

record search_query =
  limit :: "jsnum option"
  offset :: "jsnum option"

definition or_default :: "jsnum option \<Rightarrow> jsnum \<Rightarrow> jsnum" where
  "or_default x d = (case x of None \<Rightarrow> d | Some a \<Rightarrow> or_else a d)"

definition searchBody_size :: "search_query \<Rightarrow> jsnum" where
  "searchBody_size query = or_default (limit query) (Num 100)"

definition searchBody_from :: "search_query \<Rightarrow> jsnum" where
  "searchBody_from query = or_default (offset query) (Num 0)"

text \<open>
  \<open>GET /events\<close> passes \<open>limit: parseInt(req.query.limit) || 100\<close> and
  \<open>offset: parseInt(req.query.offset) || 0\<close>; the arguments are the two results of
  \<open>parseInt\<close>.
\<close>

definition events_route_query :: "jsnum \<Rightarrow> jsnum \<Rightarrow> search_query" where
  "events_route_query parsed_limit parsed_offset =
     \<lparr>limit = Some (or_else parsed_limit (Num 100)),
      offset = Some (or_else parsed_offset (Num 0))\<rparr>"

section \<open>Query facade: funnel analysis and usage growth\<close>

text \<open>
  A funnel's \<open>conversion_rate\<close> is the number 100 or 0, or the string that
  \<open>toFixed(2)\<close> returns.
\<close>

datatype js_rate = RateNumber nat | RateString fixed

text \<open>
  An entry of the funnel: \<open>{step, event, count, unique_users, conversion_rate}\<close>; the
  rate is absent until the second pass sets it.
\<close>

record funnel_entry =
  funnel_step :: nat
  funnel_event :: string
  funnel_count :: nat
  funnel_unique_users :: nat
  conversion_rate :: "js_rate option"

datatype search_error = SearchFailed

text \<open>
  The loop of \<open>getFunnelAnalysis\<close> from step \<open>i\<close> on. \<open>search i ev\<close> is the answer of
  the index to the i-th request, the one for the event type \<open>ev\<close> alone: the total
  of hits and the cardinality of \<open>user_id\<close>, or a thrown error, which ends the loop.
\<close>

fun funnel_counts ::
  "(nat \<Rightarrow> string \<Rightarrow> search_error + nat \<times> nat) \<Rightarrow> nat \<Rightarrow> string list
     \<Rightarrow> search_error + funnel_entry list" where
  "funnel_counts search i [] = Inr []"
| "funnel_counts search i (ev # evs) =
     (case search i ev of
        Inl err \<Rightarrow> Inl err
      | Inr (count, uniqueUsers) \<Rightarrow>
          (case funnel_counts search (Suc i) evs of
             Inl err \<Rightarrow> Inl err
           | Inr results \<Rightarrow>
               Inr (\<lparr>funnel_step = i + 1, funnel_event = ev, funnel_count = count,
                      funnel_unique_users = uniqueUsers, conversion_rate = None\<rparr> # results)))"

text \<open>
  The second pass, \<open>results.forEach((step, index) => ...)\<close>. \<open>results ! 0\<close> is read
  only for an entry of \<open>results\<close>, so the list is not empty there.
\<close>

definition set_conversion_rates :: "funnel_entry list \<Rightarrow> funnel_entry list" where
  "set_conversion_rates results =
     map (\<lambda>(index, entry).
            entry\<lparr>conversion_rate := Some
              (if index = 0 then RateNumber 100
               else if funnel_count (results ! 0) > 0
                    then RateString (toFixed 2
                           (js_mul (js_div (number_of (int (funnel_count entry)))
                                           (number_of (int (funnel_count (results ! 0)))))
                                   (number_of 100)))
                    else RateNumber 0)\<rparr>)
         (enumerate 0 results)"

definition getFunnelAnalysis ::
  "(nat \<Rightarrow> string \<Rightarrow> search_error + nat \<times> nat) \<Rightarrow> string list
     \<Rightarrow> search_error + funnel_entry list" where
  "getFunnelAnalysis search events =
     (case funnel_counts search 0 events of
        Inl err \<Rightarrow> Inl err
      | Inr results \<Rightarrow> Inr (set_conversion_rates results))"

text \<open>
  A bucket of \<open>events_over_time\<close>: \<open>{date, count}\<close>. The growth rate of
  \<open>GET /analytics/usage\<close> is computed from the buckets; \<open>parseFloat\<close> reads the string
  of \<open>toFixed(1)\<close> back as a number, and the number 0 as 0. The sums are integers;
  they are doubles as long as they stay below \<open>2 ^ 53\<close>.
\<close>

record bucket =
  bucket_date :: string
  bucket_count :: nat

definition growth_rate :: "bucket list \<Rightarrow> number" where
  "growth_rate events =
     (let midPoint = length events div 2;
          firstHalf = foldl (\<lambda>sum item. sum + int (bucket_count item)) 0 (take midPoint events);
          secondHalf = foldl (\<lambda>sum item. sum + int (bucket_count item)) 0 (drop midPoint events)
      in if firstHalf > 0
         then parseFloat 1 (toFixed 1
                (js_mul (js_div (number_of (secondHalf - firstHalf)) (number_of firstHalf))
                        (number_of 100)))
         else number_of 0)"

section \<open>API server: stores, index and the connection registry\<close>

type_synonym tenant = nat

type_synonym conn_id = nat

type_synonym res_id = nat

type_synonym props = "(string \<times> string) list"

text \<open>
  An event as it arrives in a request body: \<open>{event, properties, userId, sessionId}\<close>.
  Every field may be missing.
\<close>

record event_input =
  event :: "string option"
  properties :: "props option"
  userId :: "string option"
  sessionId :: "string option"

text \<open>
  An event with the values the \<open>INSERT\<close> statement sends and the id and timestamp it
  returns. The same fields, without \<open>tenant_id\<close>, make the object the handlers
  broadcast; without \<open>id\<close> they make the object handed to the index. The record
  stands for all three; the table keeps it as \<open>stored\<close> makes it.
\<close>

record event_row =
  row_id :: nat
  tenant_id :: tenant
  event_type :: string
  row_properties :: props
  user_id :: "string option"
  session_id :: "string option"
  timestamp :: nat

text \<open>The document \<open>indexEvent\<close> and \<open>bulkIndexEvents\<close> build.\<close>

record document =
  doc_tenant_id :: tenant
  doc_event_type :: "string option"
  doc_user_id :: "string option"
  doc_session_id :: "string option"
  doc_timestamp :: nat
  doc_properties :: props

text \<open>An entry of \<open>global.sseConnections\<close>: \<open>{res, tenantId}\<close>.\<close>

record connection =
  res :: res_id
  tenantId :: tenant

datatype sse_message = Connected | EventMessage event_row

text \<open>
  What an ingestion call does, in the order it does it. \<open>Broadcast\<close> is a call of
  \<open>broadcastEvent\<close>; the \<open>Rejected\<close> actions are statements that threw.
\<close>

datatype action =
    Begin
  | Inserted event_row
  | InsertRejected
  | Indexed "document list"
  | IndexRejected
  | Broadcast tenant event_row
  | Commit
  | CommitRejected
  | Rollback
  | Respond nat

text \<open>
  The state the handlers share: the committed rows of \<open>events\<close>, the documents of the
  index, the connection registry (\<open>None\<close> while \<open>global.sseConnections\<close> is
  undefined; a JavaScript \<open>Map\<close> keeps insertion order, so it is an association list),
  what was written to each response stream, the lines of \<open>console.error\<close>, and the
  actions performed so far.
\<close>

record world =
  events_table :: "event_row list"
  indexed :: "document list"
  sseConnections :: "(conn_id \<times> connection) list option"
  written :: "(res_id \<times> sse_message) list"
  console :: "string list"
  trace :: "action list"

text \<open>
  What the outside decides during one call: the id and the timestamp the database
  assigns to the k-th inserted row, and which statements throw (an insert for a reason
  other than the columns' constraints). \<open>BEGIN\<close>, \<open>ROLLBACK\<close> and \<open>pool.connect\<close> are
  taken to succeed.
\<close>

record env =
  new_id :: "nat \<Rightarrow> nat"
  now :: nat
  insert_throws :: "nat \<Rightarrow> bool"
  index_throws :: bool
  commit_throws :: bool
  write_throws :: "res_id \<Rightarrow> bool"

datatype failure = InsertFailed | IndexFailed | CommitFailed

datatype reply =
    ErrorReply string
  | TrackReply nat nat
  | BatchReply "nat list" nat

datatype response = Response (status: nat) (json: reply)

definition note_action :: "action \<Rightarrow> world \<Rightarrow> world" where
  "note_action a w = w\<lparr>trace := trace w @ [a]\<rparr>"

definition console_error :: "string \<Rightarrow> world \<Rightarrow> world" where
  "console_error line w = w\<lparr>console := console w @ [line]\<rparr>"

text \<open>\<open>Map.prototype.set\<close> and \<open>Map.prototype.delete\<close> on the association list.\<close>

fun Map_set :: "'k \<Rightarrow> 'v \<Rightarrow> ('k \<times> 'v) list \<Rightarrow> ('k \<times> 'v) list" where
  "Map_set k v [] = [(k, v)]"
| "Map_set k v ((k', v') # m) = (if k' = k then (k, v) # m else (k', v') # Map_set k v m)"

definition Map_delete :: "'k \<Rightarrow> ('k \<times> 'v) list \<Rightarrow> ('k \<times> 'v) list" where
  "Map_delete k m = filter (\<lambda>(k', v). k' \<noteq> k) m"

subsection \<open>The durable store\<close>

text \<open>
  A column \<open>VARCHAR(n)\<close> takes a string of at most \<open>n\<close> characters, and a longer one
  whose excess is all spaces, which it cuts to \<open>n\<close> characters; any other string is an
  error. A nullable column takes NULL.
\<close>

definition fits :: "nat \<Rightarrow> string \<Rightarrow> bool" where
  "fits n s = (length s \<le> n \<or> list_all (\<lambda>c. c = CHR '' '') (drop n s))"

definition fits_nullable :: "nat \<Rightarrow> string option \<Rightarrow> bool" where
  "fits_nullable n x = (case x of None \<Rightarrow> True | Some s \<Rightarrow> fits n s)"

text \<open>
  \<open>INSERT INTO events ... RETURNING id, timestamp\<close>, the k-th of the call. The schema
  declares \<open>event_type VARCHAR(100) NOT NULL\<close>, \<open>user_id VARCHAR(255)\<close> and
  \<open>session_id VARCHAR(255)\<close>: a missing type (sent as NULL) and a value that does not
  fit its column are rejected. \<open>properties\<close> defaults to \<open>{}\<close>.
\<close>

definition insert_event :: "env \<Rightarrow> nat \<Rightarrow> tenant \<Rightarrow> event_input \<Rightarrow> failure + event_row" where
  "insert_event e k tid evt =
     (case event evt of
        None \<Rightarrow> Inl InsertFailed
      | Some ty \<Rightarrow>
          if fits 100 ty \<and> fits_nullable 255 (userId evt) \<and> fits_nullable 255 (sessionId evt)
             \<and> \<not> insert_throws e k
          then Inr \<lparr>row_id = new_id e k, tenant_id = tid, event_type = ty,
                    row_properties = (case properties evt of None \<Rightarrow> [] | Some p \<Rightarrow> p),
                    user_id = userId evt, session_id = sessionId evt,
                    timestamp = now e\<rparr>
          else Inl InsertFailed)"

text \<open>The row as the table keeps it: each value cut to the width of its column.\<close>

definition stored :: "event_row \<Rightarrow> event_row" where
  "stored row =
     row\<lparr>event_type := take 100 (event_type row),
         user_id := map_option (take 255) (user_id row),
         session_id := map_option (take 255) (session_id row)\<rparr>"

subsection \<open>The aggregation index (OpenSearchService)\<close>

text \<open>
  The document of an event: \<open>event_type: eventData.event_type || eventData.event\<close>,
  where the handlers pass no field \<open>event\<close>, so an empty type becomes undefined.
\<close>

definition make_document :: "tenant \<Rightarrow> event_row \<Rightarrow> document" where
  "make_document tid eventData =
     \<lparr>doc_tenant_id = tid,
      doc_event_type = (if falsy (Some (event_type eventData)) then None
                        else Some (event_type eventData)),
      doc_user_id = user_id eventData,
      doc_session_id = session_id eventData,
      doc_timestamp = timestamp eventData,
      doc_properties = row_properties eventData\<rparr>"

text \<open>Both catch the client's error, log it and throw it again.\<close>

definition indexEvent :: "env \<Rightarrow> tenant \<Rightarrow> event_row \<Rightarrow> world \<Rightarrow> world \<times> (failure + unit)" where
  "indexEvent e tid eventData w =
     (if index_throws e
      then (note_action IndexRejected (console_error ''OpenSearch indexing error'' w), Inl IndexFailed)
      else (note_action (Indexed [make_document tid eventData])
              (w\<lparr>indexed := indexed w @ [make_document tid eventData]\<rparr>), Inr ()))"

definition bulkIndexEvents ::
  "env \<Rightarrow> tenant \<Rightarrow> event_row list \<Rightarrow> world \<Rightarrow> world \<times> (failure + unit)" where
  "bulkIndexEvents e tid events w =
     (if index_throws e
      then (note_action IndexRejected (console_error ''OpenSearch bulk indexing error'' w),
            Inl IndexFailed)
      else (note_action (Indexed (map (make_document tid) events))
              (w\<lparr>indexed := indexed w @ map (make_document tid) events\<rparr>), Inr ()))"

subsection \<open>The realtime fan-out: GET /events/stream and broadcastEvent\<close>

text \<open>
  Opening a stream writes the confirmation and registers \<open>{res, tenantId}\<close> under the
  connection id, creating the registry on first use. The heartbeat timer writes no
  event and is left out. Closing deletes the entry.
\<close>

definition stream_open :: "conn_id \<Rightarrow> res_id \<Rightarrow> tenant \<Rightarrow> world \<Rightarrow> world" where
  "stream_open connectionId r tid w =
     w\<lparr>written := written w @ [(r, Connected)],
       sseConnections :=
         Some (Map_set connectionId \<lparr>res = r, tenantId = tid\<rparr>
                 (case sseConnections w of None \<Rightarrow> [] | Some m \<Rightarrow> m))\<rparr>"

definition stream_close :: "conn_id \<Rightarrow> world \<Rightarrow> world" where
  "stream_close connectionId w =
     w\<lparr>sseConnections := map_option (Map_delete connectionId) (sseConnections w)\<rparr>"

text \<open>
  The body of the \<open>forEach\<close> in \<open>broadcastEvent\<close>, for one entry: a connection of
  another tenant is skipped; a write that throws is logged and the entry deleted.
\<close>

definition deliver :: "env \<Rightarrow> tenant \<Rightarrow> event_row \<Rightarrow> world \<Rightarrow> conn_id \<times> connection \<Rightarrow> world" where
  "deliver e tid eventData w entry =
     (case entry of (cid, conn) \<Rightarrow>
        if tenantId conn = tid then
          if write_throws e (res conn)
          then (console_error ''Broadcast error to connection'' w)
                 \<lparr>sseConnections := map_option (Map_delete cid) (sseConnections w)\<rparr>
          else w\<lparr>written := written w @ [(res conn, EventMessage eventData)]\<rparr>
        else w)"

definition broadcastEvent :: "env \<Rightarrow> tenant \<Rightarrow> event_row \<Rightarrow> world \<Rightarrow> world" where
  "broadcastEvent e tid eventData w =
     (case sseConnections w of
        None \<Rightarrow> w
      | Some conns \<Rightarrow> foldl (deliver e tid eventData) w conns)"

subsection \<open>POST /track\<close>

text \<open>The \<open>try\<close> block: what it leaves behind and whether it threw.\<close>

definition track_try :: "env \<Rightarrow> tenant \<Rightarrow> event_input \<Rightarrow> world \<Rightarrow> world \<times> (failure + event_row)" where
  "track_try e tid body w =
     (case insert_event e 0 tid body of
        Inl err \<Rightarrow> (note_action InsertRejected (note_action Begin w), Inl err)
      | Inr row \<Rightarrow>
          (case indexEvent e tid row (note_action (Inserted row) (note_action Begin w)) of
             (w1, Inl err) \<Rightarrow> (w1, Inl err)
           | (w1, Inr _) \<Rightarrow>
               let w2 = broadcastEvent e tid row (note_action (Broadcast tid row) w1)
               in if commit_throws e then (note_action CommitRejected w2, Inl CommitFailed)
                  else (note_action Commit (w2\<lparr>events_table := events_table w2 @ [stored row]\<rparr>),
                        Inr row)))"

definition track :: "env \<Rightarrow> tenant \<Rightarrow> event_input \<Rightarrow> world \<Rightarrow> world \<times> response" where
  "track e tid body w =
     (if falsy (event body) then (w, Response 400 (ErrorReply ''Event name required''))
      else case track_try e tid body w of
             (w1, Inr row) \<Rightarrow>
               (note_action (Respond 201) w1, Response 201 (TrackReply (row_id row) (timestamp row)))
           | (w1, Inl err) \<Rightarrow>
               (note_action (Respond 500) (console_error ''Track error'' (note_action Rollback w1)),
                Response 500 (ErrorReply ''Failed to track event'')))"

subsection \<open>POST /track/batch\<close>

text \<open>The \<open>for\<close> loop over the events, from the k-th on; it stops at the first throw.\<close>

fun insert_all ::
  "env \<Rightarrow> tenant \<Rightarrow> nat \<Rightarrow> event_input list \<Rightarrow> world \<Rightarrow> world \<times> (failure + event_row list)" where
  "insert_all e tid k [] w = (w, Inr [])"
| "insert_all e tid k (evt # evts) w =
     (case insert_event e k tid evt of
        Inl err \<Rightarrow> (note_action InsertRejected w, Inl err)
      | Inr row \<Rightarrow>
          (case insert_all e tid (Suc k) evts (note_action (Inserted row) w) of
             (w1, Inl err) \<Rightarrow> (w1, Inl err)
           | (w1, Inr rows) \<Rightarrow> (w1, Inr (row # rows))))"

definition broadcast_all :: "env \<Rightarrow> tenant \<Rightarrow> event_row list \<Rightarrow> world \<Rightarrow> world" where
  "broadcast_all e tid rows w =
     foldl (\<lambda>w row. broadcastEvent e tid row (note_action (Broadcast tid row) w)) w rows"

definition batch_try ::
  "env \<Rightarrow> tenant \<Rightarrow> event_input list \<Rightarrow> world \<Rightarrow> world \<times> (failure + event_row list)" where
  "batch_try e tid events w =
     (case insert_all e tid 0 events (note_action Begin w) of
        (w1, Inl err) \<Rightarrow> (w1, Inl err)
      | (w1, Inr rows) \<Rightarrow>
          (case bulkIndexEvents e tid rows w1 of
             (w2, Inl err) \<Rightarrow> (w2, Inl err)
           | (w2, Inr _) \<Rightarrow>
               let w3 = broadcast_all e tid rows w2
               in if commit_throws e then (note_action CommitRejected w3, Inl CommitFailed)
                  else (note_action Commit
                          (w3\<lparr>events_table := events_table w3 @ map stored rows\<rparr>),
                        Inr rows)))"

text \<open>\<open>events\<close> is \<open>None\<close> when the body's field is not an array.\<close>

definition track_batch ::
  "env \<Rightarrow> tenant \<Rightarrow> event_input list option \<Rightarrow> world \<Rightarrow> world \<times> response" where
  "track_batch e tid events w =
     (case events of
        None \<Rightarrow> (w, Response 400 (ErrorReply ''Events array required''))
      | Some evts \<Rightarrow>
          if length evts = 0 then (w, Response 400 (ErrorReply ''Events array required''))
          else (case batch_try e tid evts w of
                  (w1, Inr rows) \<Rightarrow>
                    (note_action (Respond 201) w1,
                     Response 201 (BatchReply (map row_id rows) (length rows)))
                | (w1, Inl err) \<Rightarrow>
                    (note_action (Respond 500)
                       (console_error ''Batch track error'' (note_action Rollback w1)),
                     Response 500 (ErrorReply ''Failed to track events''))))"

text \<open>The actions a call added to the trace.\<close>

definition actions_of :: "world \<Rightarrow> world \<Rightarrow> action list" where
  "actions_of w w' = drop (length (trace w)) (trace w')"

text \<open>\<open>a\<close> is performed before the first \<open>b\<close>.\<close>

definition happens_before :: "action \<Rightarrow> action \<Rightarrow> action list \<Rightarrow> bool" where
  "happens_before a b t = (a \<in> set (takeWhile (\<lambda>x. x \<noteq> b) t))"

text \<open>
  The place of an action in a call: begin, inserts, index write, broadcasts, commit,
  rollback, response.
\<close>

fun phase :: "action \<Rightarrow> nat" where
  "phase Begin = 0"
| "phase (Inserted r) = 1"
| "phase InsertRejected = 1"
| "phase (Indexed d) = 2"
| "phase IndexRejected = 2"
| "phase (Broadcast t r) = 3"
| "phase Commit = 4"
| "phase CommitRejected = 4"
| "phase Rollback = 5"
| "phase (Respond n) = 6"

text \<open>
  The four forms the actions of a call take: rejected before the transaction; an
  insert threw; the index write threw; the index write succeeded, every row was
  broadcast, and the commit succeeded or threw.
\<close>

definition call_shape :: "action list \<Rightarrow> bool" where
  "call_shape t = (t = []
    \<or> (\<exists>t1. (\<forall>a\<in>set t1. phase a = 1) \<and> t = Begin # t1 @ [Rollback, Respond 500])
    \<or> (\<exists>t1. (\<forall>a\<in>set t1. phase a = 1) \<and> t = Begin # t1 @ [IndexRejected, Rollback, Respond 500])
    \<or> (\<exists>t1 docs t3 fin. (\<forall>a\<in>set t1. phase a = 1) \<and> (\<forall>a\<in>set t3. phase a = 3)
          \<and> (fin = [Commit, Respond 201] \<or> fin = [CommitRejected, Rollback, Respond 500])
          \<and> t = Begin # t1 @ [Indexed docs] @ t3 @ fin))"

subsection \<open>Runs of the server\<close>

text \<open>The entries of the registry, none while it is undefined.\<close>

definition conns_of :: "world \<Rightarrow> (conn_id \<times> connection) list" where
  "conns_of w = (case sseConnections w of None \<Rightarrow> [] | Some m \<Rightarrow> m)"

text \<open>
  The connection ids \<open>broadcastEvent\<close> deletes: those with an entry of the tenant whose
  write throws.
\<close>

definition dropped :: "env \<Rightarrow> tenant \<Rightarrow> (conn_id \<times> connection) list \<Rightarrow> conn_id \<Rightarrow> bool" where
  "dropped e tid cs k =
     (\<exists>y\<in>set cs. fst y = k \<and> tenantId (snd y) = tid \<and> write_throws e (res (snd y)))"

text \<open>
  The requests that touch the registry. Between the index write and \<open>COMMIT\<close> a
  handler does not await, so its broadcasts run as one block, and the opening and
  closing of a stream are synchronous too: every interleaving of the handlers acts on
  the registry and the streams as some sequence of these requests.
\<close>

datatype request =
    Open conn_id res_id tenant
  | Close conn_id
  | Track env tenant event_input
  | TrackBatch env tenant "event_input list option"

fun handle :: "request \<Rightarrow> world \<Rightarrow> world" where
  "handle (Open connectionId r tid) w = stream_open connectionId r tid w"
| "handle (Close connectionId) w = stream_close connectionId w"
| "handle (Track e tid body) w = fst (track e tid body w)"
| "handle (TrackBatch e tid events) w = fst (track_batch e tid events w)"

definition run :: "request list \<Rightarrow> world \<Rightarrow> world" where
  "run reqs w = foldl (\<lambda>w r. handle r w) w reqs"

text \<open>
  The invariant of a run: every registered stream, and every stream an event was
  written to, was opened for the tenant in question (\<open>opened\<close> holds the pairs of a
  stream and the tenant it was opened for).
\<close>

definition isolated :: "(res_id \<times> tenant) set \<Rightarrow> world \<Rightarrow> bool" where
  "isolated opened w =
     ((\<forall>x\<in>set (conns_of w). (res (snd x), tenantId (snd x)) \<in> opened)
      \<and> (\<forall>d\<in>set (written w). \<forall>row. snd d = EventMessage row \<longrightarrow> (fst d, tenant_id row) \<in> opened))"

subsection \<open>Example states and inputs\<close>

text \<open>The server at start, and an environment in which nothing throws.\<close>

definition start :: world where
  "start = \<lparr>events_table = [], indexed = [], sseConnections = None, written = [],
            console = [], trace = []\<rparr>"

definition calm :: env where
  "calm = \<lparr>new_id = (\<lambda>k. k), now = 0, insert_throws = (\<lambda>k. False), index_throws = False,
           commit_throws = False, write_throws = (\<lambda>r. False)\<rparr>"

definition index_down :: env where
  "index_down = calm\<lparr>index_throws := True\<rparr>"

definition signup :: event_input where
  "signup = \<lparr>event = Some ''signup'', properties = None, userId = Some ''u1'', sessionId = None\<rparr>"

definition signup_row :: event_row where
  "signup_row = \<lparr>row_id = 0, tenant_id = 7, event_type = ''signup'', row_properties = [],
                 user_id = Some ''u1'', session_id = None, timestamp = 0\<rparr>"

text \<open>Three streams of tenant 7; one stream each of tenants 7 and 8.\<close>

definition three_streams :: world where
  "three_streams = stream_open 3 13 7 (stream_open 2 12 7 (stream_open 1 11 7 start))"

definition two_tenants :: "request list" where
  "two_tenants = [Open 5 9 7, Open 6 10 8]"

text \<open>
  An index holding three visits, one signup, 160 landings, 23 checkouts and nothing
  else.
\<close>

definition counted :: "nat \<Rightarrow> string \<Rightarrow> search_error + nat \<times> nat" where
  "counted i ev =
     Inr (if ev = ''visit'' then (3, 3) else if ev = ''signup'' then (1, 1)
          else if ev = ''landing'' then (160, 90) else if ev = ''checkout'' then (23, 20)
          else (0, 0))"

definition day :: "nat \<Rightarrow> bucket" where
  "day n = \<lparr>bucket_date = ''2025-01-01'', bucket_count = n\<rparr>"

section \<open>Lemmas about rounding and the query facade\<close>

lemma bit_length_bounds:
  "0 < n \<Longrightarrow> 2 ^ (bit_length n - 1) \<le> n \<and> n < 2 ^ bit_length n"
proof (induction n rule: bit_length.induct)
  case (1 n)
  show ?case
  proof (cases "n div 2 = 0")
    case True
    with "1.prems" have "n = 1" by (simp add: div_eq_0_iff)
    then show ?thesis by (simp add: bit_length.simps)
  next
    case False
    then have pos: "0 < n div 2" by simp
    from "1.IH"[OF _ pos] "1.prems"
    have ih: "2 ^ (bit_length (n div 2) - 1) \<le> n div 2" "n div 2 < 2 ^ bit_length (n div 2)"
      by simp_all
    have bl: "bit_length n = Suc (bit_length (n div 2))"
      using "1.prems" by (subst bit_length.simps) simp
    have "0 < bit_length (n div 2)"
      using pos by (subst bit_length.simps) simp
    then obtain k where k: "bit_length (n div 2) = Suc k" by (cases "bit_length (n div 2)") auto
    from ih k have "2 ^ k \<le> n div 2" "n div 2 < 2 * 2 ^ k" by simp_all
    then have "2 * 2 ^ k \<le> n" "n < 2 * (2 * 2 ^ k)" by linarith+
    then show ?thesis by (simp add: bl k)
  qed
qed

lemma nearest_even_error:
  assumes "0 < d"
  shows "\<bar>real (nearest_even n d) - real n / real d\<bar> \<le> 1 / 2"
proof -
  define q r where "q = n div d" and "r = n mod d"
  have n: "real n = real q * real d + real r"
    unfolding q_def r_def by (metis of_nat_add of_nat_mult div_mult_mod_eq)
  have r: "r < d" unfolding r_def using assms by simp
  have x: "real n / real d = real q + real r / real d"
    using assms by (simp add: n field_simps)
  have frac: "0 \<le> real r / real d" "real r / real d < 1" using r assms by simp_all
  consider "2 * r < d" | "d < 2 * r" | "2 * r = d" by linarith
  then show ?thesis
  proof cases
    case 1
    then have "nearest_even n d = q" by (simp add: nearest_even_def q_def r_def Let_def)
    moreover from 1 have "real r / real d \<le> 1 / 2" using assms by (simp add: field_simps)
    ultimately show ?thesis using frac by (simp add: x)
  next
    case 2
    then have "nearest_even n d = q + 1" by (simp add: nearest_even_def q_def r_def Let_def)
    moreover from 2 have "1 / 2 \<le> real r / real d" using assms by (simp add: field_simps)
    ultimately show ?thesis using frac by (simp add: x)
  next
    case 3
    then have "nearest_even n d = q \<or> nearest_even n d = q + 1"
      by (simp add: nearest_even_def q_def r_def Let_def)
    moreover from 3 have "real r / real d = 1 / 2" using assms by (simp add: field_simps)
    then have "real n / real d = real q + 1 / 2" by (simp only: x)
    ultimately show ?thesis by auto
  qed
qed

lemma scale_bounds:
  assumes "0 < n" "0 < d"
  defines "B \<equiv> bit_length d" and "L \<equiv> bit_length ((n * 2 ^ bit_length d) div d)"
  shows "0 < L" "d * 2 ^ (L - 1) \<le> n * 2 ^ B" "n * 2 ^ B < d * 2 ^ L"
proof -
  define y where "y = (n * 2 ^ B) div d"
  have "d < 2 ^ B" using bit_length_bounds[OF assms(2)] by (simp add: B_def)
  also have "\<dots> \<le> n * 2 ^ B" using assms(1) by simp
  finally have "d \<le> n * 2 ^ B" by simp
  then have ypos: "0 < y" unfolding y_def using assms(2) by (simp add: div_greater_zero_iff)
  have L: "L = bit_length y" by (simp add: L_def y_def B_def)
  from bit_length_bounds[OF ypos] have yb: "2 ^ (L - 1) \<le> y" "y < 2 ^ L" by (simp_all add: L)
  show "0 < L" using ypos unfolding L by (subst bit_length.simps) simp
  have "d * 2 ^ (L - 1) \<le> d * y" using yb(1) by (intro mult_left_mono) simp_all
  also have "\<dots> \<le> n * 2 ^ B" unfolding y_def by simp
  finally show "d * 2 ^ (L - 1) \<le> n * 2 ^ B" .
  have "n * 2 ^ B < (y + 1) * d"
    unfolding y_def using assms(2) by (metis Suc_eq_plus1 dividend_less_div_times mult.commute add.commute mult_Suc)
  also have "\<dots> \<le> 2 ^ L * d" using yb(2) by (intro mult_right_mono) simp_all
  finally show "n * 2 ^ B < d * 2 ^ L" by (simp add: mult.commute)
qed

lemma to_double_denominator: "0 < snd (to_double n d)"
  by (simp add: to_double_def Let_def)

lemma to_double_error:
  assumes "0 < d"
  shows "\<bar>fraction (to_double n d) - real n / real d\<bar> \<le> real n / real d / 2 ^ 53"
proof (cases "n = 0")
  case True
  then show ?thesis by (simp add: to_double_def fraction_def)
next
  case False
  then have n: "0 < n" by simp
  define B where "B = bit_length d"
  define L where "L = bit_length ((n * 2 ^ bit_length d) div d)"
  from scale_bounds[OF n assms] have
    L: "0 < L" and lo: "d * 2 ^ (L - 1) \<le> n * 2 ^ B" and hi: "n * 2 ^ B < d * 2 ^ L"
    by (simp_all add: B_def L_def)
  have dr: "0 < real d" using assms by simp
  show ?thesis
  proof (cases "L \<le> 53 + B")
    case True
    define s where "s = 53 + B - L"
    define m where "m = nearest_even (n * 2 ^ s) d"
    have td: "to_double n d = (m, 2 ^ s)"
      using False True by (simp add: to_double_def Let_def B_def L_def s_def m_def)
    have "\<bar>real m - real (n * 2 ^ s) / real d\<bar> \<le> 1 / 2"
      unfolding m_def by (rule nearest_even_error[OF assms])
    then have "\<bar>real m - real n / real d * 2 ^ s\<bar> / 2 ^ s \<le> (1 / 2) / 2 ^ s"
      by (intro divide_right_mono) simp_all
    moreover have "fraction (to_double n d) - real n / real d
        = (real m - real n / real d * 2 ^ s) / 2 ^ s"
      by (simp add: td fraction_def field_simps)
    ultimately have e: "\<bar>fraction (to_double n d) - real n / real d\<bar> \<le> 1 / (2 * 2 ^ s)"
      by (simp add: abs_divide)
    have "L - 1 + (s + 1) = 53 + B" using L True by (simp add: s_def)
    then have "(2::nat) ^ (L - 1) * 2 ^ (s + 1) = 2 ^ 53 * 2 ^ B"
      by (metis power_add)
    then have "(d * 2 ^ 53) * 2 ^ B = d * 2 ^ (L - 1) * 2 ^ (s + 1)"
      by (simp only: mult.assoc)
    also have "\<dots> \<le> n * 2 ^ B * 2 ^ (s + 1)" using lo by (intro mult_right_mono) simp_all
    also have "\<dots> = (n * 2 ^ (s + 1)) * 2 ^ B" by (simp only: ac_simps)
    finally have "d * 2 ^ 53 \<le> n * 2 ^ (s + 1)" by (simp only: mult_le_cancel2) simp
    then have "real (d * 2 ^ 53) \<le> real (n * 2 ^ (s + 1))"
      by (simp only: of_nat_le_iff)
    then have "real d * 2 ^ 53 \<le> real n * (2 * 2 ^ s)"
      by (simp only: of_nat_mult of_nat_power of_nat_numeral power_add power_one_right mult.commute)
    then have "1 / (2 * 2 ^ s) \<le> real n / real d / 2 ^ 53"
      using dr by (simp add: field_simps)
    with e show ?thesis by linarith
  next
    case False
    define t where "t = L - 53 - B"
    define m where "m = nearest_even n (d * 2 ^ t)"
    have td: "to_double n d = (m * 2 ^ t, 1)"
      using \<open>n \<noteq> 0\<close> False by (simp add: to_double_def Let_def B_def L_def t_def m_def)
    have "\<bar>real m - real n / real (d * 2 ^ t)\<bar> \<le> 1 / 2"
      unfolding m_def by (rule nearest_even_error) (use assms in simp)
    then have "\<bar>real m - real n / real (d * 2 ^ t)\<bar> * 2 ^ t \<le> (1 / 2) * 2 ^ t"
      by (intro mult_right_mono) simp_all
    moreover have "fraction (to_double n d) - real n / real d
        = (real m - real n / real (d * 2 ^ t)) * 2 ^ t"
      using dr by (simp add: td fraction_def field_simps)
    ultimately have e: "\<bar>fraction (to_double n d) - real n / real d\<bar> \<le> 2 ^ t / 2"
      by (simp add: abs_mult)
    have "L - 1 = 52 + t + B" using False by (simp add: t_def)
    then have "(2::nat) ^ (L - 1) = 2 ^ 52 * 2 ^ t * 2 ^ B"
      by (simp only: power_add)
    with lo have "d * (2 ^ 52 * 2 ^ t * 2 ^ B) \<le> n * 2 ^ B" by (simp only:)
    then have "(d * 2 ^ 52 * 2 ^ t) * 2 ^ B \<le> n * 2 ^ B" by (simp only: mult.assoc)
    then have "d * 2 ^ 52 * 2 ^ t \<le> n" by (simp only: mult_le_cancel2) simp
    then have "real (d * 2 ^ 52 * 2 ^ t) \<le> real n"
      by (simp only: of_nat_le_iff)
    then have "real d * 2 ^ 52 * 2 ^ t \<le> real n"
      by (simp only: of_nat_mult of_nat_power of_nat_numeral)
    then have "2 ^ t / 2 \<le> real n / real d / 2 ^ 53"
      using dr by (simp add: field_simps)
    with e show ?thesis by linarith
  qed
qed

lemma toFixed_error:
  assumes "0 < d"
  shows "\<bar>real ((2 * n * 10 ^ k + d) div (2 * d)) / 10 ^ k - real n / real d\<bar> \<le> 1 / (2 * 10 ^ k)"
proof -
  define y where "y = real n / real d * 10 ^ k"
  have "real (2 * n * 10 ^ k + d) / real (2 * d) = y + 1 / 2"
    using assms by (simp add: y_def field_simps)
  then have "real_of_int (int ((2 * n * 10 ^ k + d) div (2 * d))) = of_int \<lfloor>y + 1 / 2\<rfloor>"
    by (metis floor_divide_of_nat_eq)
  then have h: "real ((2 * n * 10 ^ k + d) div (2 * d)) = of_int \<lfloor>y + 1 / 2\<rfloor>"
    by simp
  have "\<bar>of_int \<lfloor>y + 1 / 2\<rfloor> - y\<bar> \<le> 1 / 2" by linarith
  then have "\<bar>of_int \<lfloor>y + 1 / 2\<rfloor> - y\<bar> / 10 ^ k \<le> (1 / 2) / 10 ^ k"
    by (intro divide_right_mono) simp_all
  moreover have "of_int \<lfloor>y + 1 / 2\<rfloor> / 10 ^ k - real n / real d = (of_int \<lfloor>y + 1 / 2\<rfloor> - y) / 10 ^ k"
    by (simp add: y_def field_simps)
  ultimately show ?thesis by (simp add: h abs_divide)
qed

lemma percentage_nat:
  assumes "0 < b"
  shows "\<exists>n d. js_mul (js_div (Finite s a 1) (Finite False b 1)) (Finite False 100 1) = Finite s n d
           \<and> 0 < d
           \<and> \<bar>real n / real d - 100 * real a / real b\<bar> \<le> 100 * real a / real b / 2 ^ 51"
proof -
  obtain qn qd where q: "to_double a b = (qn, qd)" by (cases "to_double a b")
  obtain pn pd where p: "to_double (qn * 100) qd = (pn, pd)" by (cases "to_double (qn * 100) qd")
  have qd: "0 < qd" using to_double_denominator[of a b] by (simp add: q)
  have pd: "0 < pd" using to_double_denominator[of "qn * 100" qd] by (simp add: p)
  define x where "x = real a / real b"
  define u where "u = (1::real) / 2 ^ 53"
  have u: "0 < u" "u \<le> 1" by (simp_all add: u_def)
  have x: "0 \<le> x" by (simp add: x_def)
  have e1: "\<bar>real qn / real qd - x\<bar> \<le> x * u"
    using to_double_error[OF assms, of a] by (simp add: q fraction_def x_def u_def)
  have e2: "\<bar>real pn / real pd - 100 * (real qn / real qd)\<bar> \<le> 100 * (real qn / real qd) * u"
    using to_double_error[OF qd, of "qn * 100"] by (simp add: p fraction_def u_def mult.commute)
  define y where "y = real qn / real qd"
  from e1 have y: "y \<le> x + x * u" unfolding y_def by linarith
  have "100 * y * u \<le> 100 * (x + x * u) * u"
    using y u by (intro mult_right_mono mult_left_mono) simp_all
  also have "\<dots> \<le> 100 * (x + x) * u"
    using x u by (intro mult_right_mono mult_left_mono add_left_mono) (simp_all add: mult_left_le)
  finally have b2: "100 * y * u \<le> 200 * x * u" by simp
  define z where "z = real pn / real pd"
  have e1': "\<bar>100 * y - 100 * x\<bar> \<le> 100 * (x * u)"
    using e1 unfolding y_def by linarith
  have e2': "\<bar>z - 100 * y\<bar> \<le> 200 * x * u"
    using e2 b2 unfolding y_def z_def by linarith
  have "\<bar>z - 100 * x\<bar> \<le> \<bar>z - 100 * y\<bar> + \<bar>100 * y - 100 * x\<bar>"
    by linarith
  also have "\<dots> \<le> 200 * x * u + 100 * (x * u)"
    using e1' e2' by linarith
  also have "\<dots> = 100 * x * (4 * u) - 100 * x * u" by (simp add: algebra_simps)
  also have "\<dots> \<le> 100 * x * (4 * u)" using x u by simp
  finally have "\<bar>real pn / real pd - 100 * x\<bar> \<le> 100 * x * (4 * u)" unfolding z_def .
  moreover have "4 * u = 1 / 2 ^ 51" by (simp add: u_def)
  ultimately have "\<bar>real pn / real pd - 100 * real a / real b\<bar> \<le> 100 * real a / real b / 2 ^ 51"
    by (simp add: x_def)
  moreover have "js_mul (js_div (Finite s a 1) (Finite False b 1)) (Finite False 100 1) = Finite s pn pd"
    using assms by (simp add: q p)
  ultimately show ?thesis using pd by blast
qed

lemma funnel_counts_result:
  "funnel_counts search i evs = Inr rs \<Longrightarrow>
     length rs = length evs
     \<and> (\<forall>j<length evs. \<exists>u. search (i + j) (evs ! j) = Inr (funnel_count (rs ! j), u))"
proof (induction evs arbitrary: i rs)
  case Nil
  then show ?case by simp
next
  case (Cons ev evs)
  from Cons.prems obtain c u rest where
    s: "search i ev = Inr (c, u)" and
    r: "funnel_counts search (Suc i) evs = Inr rest" and
    rs: "rs = \<lparr>funnel_step = i + 1, funnel_event = ev, funnel_count = c,
               funnel_unique_users = u, conversion_rate = None\<rparr> # rest"
    by (auto split: sum.splits prod.splits)
  from Cons.IH[OF r] have len: "length rest = length evs"
    and ih: "\<forall>j<length evs. \<exists>u. search (Suc i + j) (evs ! j) = Inr (funnel_count (rest ! j), u)"
    by simp_all
  have "\<exists>u. search (i + j) ((ev # evs) ! j) = Inr (funnel_count (rs ! j), u)"
    if "j < length (ev # evs)" for j
  proof (cases j)
    case 0
    with s rs show ?thesis by simp
  next
    case (Suc k)
    with that ih rs show ?thesis by simp
  qed
  with len rs show ?case by simp
qed

lemma set_conversion_rates_length [simp]:
  "length (set_conversion_rates rs) = length rs"
  by (simp add: set_conversion_rates_def)

lemma set_conversion_rates_nth:
  "j < length rs \<Longrightarrow>
     set_conversion_rates rs ! j =
       (rs ! j)\<lparr>conversion_rate := Some
          (if j = 0 then RateNumber 100
           else if funnel_count (rs ! 0) > 0
                then RateString (toFixed 2
                       (js_mul (js_div (number_of (int (funnel_count (rs ! j))))
                                       (number_of (int (funnel_count (rs ! 0)))))
                               (number_of 100)))
                else RateNumber 0)\<rparr>"
  by (simp add: set_conversion_rates_def nth_enumerate_eq)

lemma foldl_count_sum:
  "foldl (\<lambda>sum item. sum + int (bucket_count item)) a xs = a + (\<Sum>b\<leftarrow>xs. int (bucket_count b))"
  by (induction xs arbitrary: a) simp_all

section \<open>Lemmas about the fan-out\<close>

lemmas world_defs = note_action_def console_error_def

lemma deliver_frame [simp]:
  "events_table (deliver e tid ev w x) = events_table w"
  "indexed (deliver e tid ev w x) = indexed w"
  "trace (deliver e tid ev w x) = trace w"
  by (auto simp: deliver_def world_defs split: prod.splits)

lemma foldl_deliver_frame [simp]:
  "events_table (foldl (deliver e tid ev) w cs) = events_table w"
  "indexed (foldl (deliver e tid ev) w cs) = indexed w"
  "trace (foldl (deliver e tid ev) w cs) = trace w"
  by (induction cs arbitrary: w) simp_all

lemma foldl_deliver_written:
  "written (foldl (deliver e tid ev) w cs) =
     written w @ map (\<lambda>x. (res (snd x), EventMessage ev))
       (filter (\<lambda>x. tenantId (snd x) = tid \<and> \<not> write_throws e (res (snd x))) cs)"
  by (induction cs arbitrary: w) (auto simp: deliver_def world_defs split: prod.splits)

lemma dropped_Nil [simp]: "dropped e tid [] k = False"
  by (simp add: dropped_def)

lemma dropped_Cons:
  "dropped e tid (c # cs) k =
     ((fst c = k \<and> tenantId (snd c) = tid \<and> write_throws e (res (snd c))) \<or> dropped e tid cs k)"
  by (auto simp: dropped_def)

lemma foldl_deliver_conns:
  "sseConnections (foldl (deliver e tid ev) w cs) =
     map_option (filter (\<lambda>x. \<not> dropped e tid cs (fst x))) (sseConnections w)"
proof (induction cs arbitrary: w)
  case Nil
  then show ?case by (simp add: option.map_ident)
next
  case (Cons c cs)
  obtain cid conn where c: "c = (cid, conn)" by (cases c)
  show ?case
  proof (cases "tenantId conn = tid \<and> write_throws e (res conn)")
    case True
    then have d: "deliver e tid ev w c =
        (console_error ''Broadcast error to connection'' w)
          \<lparr>sseConnections := map_option (Map_delete cid) (sseConnections w)\<rparr>"
      by (simp add: deliver_def c)
    have f: "filter (\<lambda>x. \<not> dropped e tid cs (fst x)) (Map_delete cid m) =
        filter (\<lambda>x. \<not> dropped e tid (c # cs) (fst x)) m" for m
      using True by (auto simp: Map_delete_def dropped_Cons c intro!: filter_cong)
    show ?thesis
      by (simp add: Cons.IH d f world_defs option.map_comp comp_def)
  next
    case False
    then have "sseConnections (deliver e tid ev w c) = sseConnections w"
      by (auto simp: deliver_def c)
    moreover have "dropped e tid (c # cs) k = dropped e tid cs k" for k
      using False by (auto simp: dropped_Cons c)
    ultimately show ?thesis
      by (simp add: Cons.IH)
  qed
qed

lemma broadcastEvent_frame [simp]:
  "events_table (broadcastEvent e tid ev w) = events_table w"
  "indexed (broadcastEvent e tid ev w) = indexed w"
  "trace (broadcastEvent e tid ev w) = trace w"
  by (simp_all add: broadcastEvent_def split: option.splits)

lemma broadcastEvent_written:
  "written (broadcastEvent e tid ev w) =
     written w @ map (\<lambda>x. (res (snd x), EventMessage ev))
       (filter (\<lambda>x. tenantId (snd x) = tid \<and> \<not> write_throws e (res (snd x))) (conns_of w))"
  by (simp add: broadcastEvent_def conns_of_def foldl_deliver_written split: option.splits)

lemma broadcastEvent_conns:
  "conns_of (broadcastEvent e tid ev w) =
     filter (\<lambda>x. \<not> dropped e tid (conns_of w) (fst x)) (conns_of w)"
  by (simp add: broadcastEvent_def conns_of_def foldl_deliver_conns split: option.splits)

section \<open>Lemmas about the ingestion handlers\<close>

lemma phase_order_happens_before:
  "sorted (map phase t) \<Longrightarrow> a \<in> set t \<Longrightarrow> b \<in> set t \<Longrightarrow> phase a < phase b
     \<Longrightarrow> happens_before a b t"
  unfolding happens_before_def
  by (induction t) auto

lemma insert_event_tenant:
  "insert_event e k tid evt = Inr row \<Longrightarrow> tenant_id row = tid"
  by (auto simp: insert_event_def fits_def fits_nullable_def split: option.splits if_splits)

lemma insert_all_frame_aux:
  "insert_all e tid k evts w = (w1, r) \<Longrightarrow>
     events_table w1 = events_table w \<and> indexed w1 = indexed w \<and> written w1 = written w
     \<and> sseConnections w1 = sseConnections w \<and> console w1 = console w"
proof (induction evts arbitrary: k w r w1)
  case Nil
  then show ?case by simp
next
  case (Cons evt evts)
  show ?case
  proof (cases "insert_event e k tid evt")
    case (Inl x)
    with Cons.prems show ?thesis by (auto simp: world_defs)
  next
    case (Inr row)
    obtain w2 r2 where rec: "insert_all e tid (Suc k) evts (note_action (Inserted row) w) = (w2, r2)"
      by (cases "insert_all e tid (Suc k) evts (note_action (Inserted row) w)")
    with Cons.prems Inr have "w1 = w2" by (auto split: sum.splits)
    with Cons.IH[OF rec] show ?thesis by (simp add: world_defs)
  qed
qed

lemma insert_all_frame [simp]:
  "events_table (fst (insert_all e tid k evts w)) = events_table w"
  "indexed (fst (insert_all e tid k evts w)) = indexed w"
  "written (fst (insert_all e tid k evts w)) = written w"
  "sseConnections (fst (insert_all e tid k evts w)) = sseConnections w"
  "console (fst (insert_all e tid k evts w)) = console w"
  using insert_all_frame_aux[of e tid k evts w "fst (insert_all e tid k evts w)" "snd (insert_all e tid k evts w)"]
  by simp_all

lemma insert_all_ok_trace:
  "insert_all e tid k evts w = (w1, Inr rows) \<Longrightarrow> trace w1 = trace w @ map Inserted rows"
  by (induction evts arbitrary: k w rows)
     (auto simp: world_defs split: sum.splits prod.splits)

lemma insert_all_ok_tenant:
  "insert_all e tid k evts w = (w1, Inr rows) \<Longrightarrow> \<forall>row\<in>set rows. tenant_id row = tid"
  by (induction evts arbitrary: k w rows)
     (auto simp: world_defs insert_event_tenant split: sum.splits prod.splits)

lemma insert_all_fail_trace:
  "insert_all e tid k evts w = (w1, Inl err) \<Longrightarrow>
     \<exists>t. trace w1 = trace w @ t \<and> (\<forall>a\<in>set t. phase a = 1)"
proof (induction evts arbitrary: k w)
  case Nil
  then show ?case by simp
next
  case (Cons evt evts)
  show ?case
  proof (cases "insert_event e k tid evt")
    case (Inl x)
    with Cons.prems show ?thesis by (auto simp: world_defs)
  next
    case (Inr row)
    with Cons.prems have "insert_all e tid (Suc k) evts (note_action (Inserted row) w) = (w1, Inl err)"
      by (auto split: sum.splits prod.splits)
    from Cons.IH[OF this] obtain t where
      "trace w1 = trace (note_action (Inserted row) w) @ t" "\<forall>a\<in>set t. phase a = 1" by blast
    then have "trace w1 = trace w @ (Inserted row # t) \<and> (\<forall>a\<in>set (Inserted row # t). phase a = 1)"
      by (simp add: world_defs)
    then show ?thesis by blast
  qed
qed

lemma insert_all_fails:
  "i < length evts \<Longrightarrow> isl (insert_event e (k + i) tid (evts ! i))
     \<Longrightarrow> isl (snd (insert_all e tid k evts w))"
proof (induction evts arbitrary: k i w)
  case Nil
  then show ?case by simp
next
  case (Cons evt evts)
  show ?case
  proof (cases i)
    case 0
    with Cons.prems show ?thesis by (auto split: sum.splits prod.splits)
  next
    case (Suc j)
    with Cons.prems have "j < length evts" "isl (insert_event e (Suc k + j) tid (evts ! j))"
      by simp_all
    note rec = Cons.IH[OF this]
    show ?thesis
    proof (cases "insert_event e k tid evt")
      case (Inl x)
      then show ?thesis by simp
    next
      case (Inr row)
      obtain w2 r2 where eq: "insert_all e tid (Suc k) evts (note_action (Inserted row) w) = (w2, r2)"
        by (cases "insert_all e tid (Suc k) evts (note_action (Inserted row) w)")
      with rec[of "note_action (Inserted row) w"] have "isl r2" by simp
      with Inr eq show ?thesis by (cases r2) auto
    qed
  qed
qed

lemma insert_all_succeeds:
  "list_all (\<lambda>(i, evt). \<not> isl (insert_event e i tid evt)) (enumerate k evts)
     \<Longrightarrow> \<exists>w1 rows. insert_all e tid k evts w = (w1, Inr rows) \<and> length rows = length evts"
proof (induction evts arbitrary: k w)
  case Nil
  then show ?case by simp
next
  case (Cons evt evts)
  from Cons.prems obtain row where row: "insert_event e k tid evt = Inr row"
    by (cases "insert_event e k tid evt") auto
  from Cons.prems have "list_all (\<lambda>(i, evt). \<not> isl (insert_event e i tid evt)) (enumerate (Suc k) evts)"
    by simp
  from Cons.IH[OF this, of "note_action (Inserted row) w"] row show ?case
    by auto
qed

lemma broadcast_all_frame [simp]:
  "events_table (broadcast_all e tid rows w) = events_table w"
  "indexed (broadcast_all e tid rows w) = indexed w"
  unfolding broadcast_all_def
  by (induction rows arbitrary: w; simp add: world_defs)+

lemma broadcast_all_trace:
  "trace (broadcast_all e tid rows w) = trace w @ map (Broadcast tid) rows"
  unfolding broadcast_all_def
  by (induction rows arbitrary: w) (simp_all add: world_defs)

lemma same_phase_sorted: "\<forall>a\<in>set xs. phase a = c \<Longrightarrow> sorted (map phase xs)"
  by (induction xs) auto

lemma shape_sorted: "call_shape t \<Longrightarrow> sorted (map phase t)"
  by (auto simp: call_shape_def sorted_append same_phase_sorted[of _ "Suc 0"] same_phase_sorted[of _ 3])

lemma shape_broadcast:
  "call_shape t \<Longrightarrow> Broadcast tid r \<in> set t \<Longrightarrow> (\<exists>docs. Indexed docs \<in> set t) \<and> IndexRejected \<notin> set t"
  by (fastforce simp: call_shape_def)

lemma shape_commit: "call_shape t \<Longrightarrow> Commit \<in> set t \<Longrightarrow> \<exists>docs. Indexed docs \<in> set t"
  by (fastforce simp: call_shape_def)

lemma track_actions:
  "actions_of w (fst (track e tid body w)) =
     (if falsy (event body) then []
      else case insert_event e 0 tid body of
             Inl err \<Rightarrow> [Begin, InsertRejected, Rollback, Respond 500]
           | Inr row \<Rightarrow>
               if index_throws e
               then [Begin, Inserted row, IndexRejected, Rollback, Respond 500]
               else [Begin, Inserted row, Indexed [make_document tid row], Broadcast tid row]
                    @ (if commit_throws e then [CommitRejected, Rollback, Respond 500]
                       else [Commit, Respond 201]))"
  by (simp add: actions_of_def track_def track_try_def indexEvent_def world_defs Let_def
      split: sum.splits)

lemma track_shape: "call_shape (actions_of w (fst (track e tid body w)))"
proof -
  have 1: "call_shape [Begin, InsertRejected, Rollback, Respond 500]"
    unfolding call_shape_def by (intro disjI2 disjI1 exI[of _ "[InsertRejected]"]) simp
  have 2: "call_shape [Begin, Inserted row, IndexRejected, Rollback, Respond 500]" for row
    unfolding call_shape_def
    by (rule disjI2, rule disjI2, rule disjI1, rule exI[of _ "[Inserted row]"]) simp
  have 3: "call_shape ([Begin, Inserted row, Indexed docs, Broadcast tid row] @ fin)"
    if "fin = [Commit, Respond 201] \<or> fin = [CommitRejected, Rollback, Respond 500]"
    for row docs fin
    unfolding call_shape_def
    apply (rule disjI2, rule disjI2, rule disjI2)
    apply (rule exI[of _ "[Inserted row]"], rule exI[of _ docs])
    apply (rule exI[of _ "[Broadcast tid row]"], rule exI[of _ fin])
    using that apply simp
    done
  show ?thesis
    unfolding track_actions
    using 1 2 3 by (auto simp: call_shape_def[of "[]"] split: sum.splits)
qed

lemma batch_shape: "call_shape (actions_of w (fst (track_batch e tid events w)))"
proof (cases events)
  case None
  then show ?thesis by (simp add: track_batch_def actions_of_def call_shape_def)
next
  case (Some evts)
  show ?thesis
  proof (cases "length evts = 0")
    case True
    with Some show ?thesis by (simp add: track_batch_def actions_of_def call_shape_def)
  next
    case False
    obtain w1 r1 where ia: "insert_all e tid 0 evts (note_action Begin w) = (w1, r1)"
      by (cases "insert_all e tid 0 evts (note_action Begin w)")
    show ?thesis
    proof (cases r1)
      case (Inl err)
      from insert_all_fail_trace[OF ia[unfolded Inl]] obtain t1 where
        t1: "trace w1 = trace (note_action Begin w) @ t1" "\<forall>a\<in>set t1. phase a = 1" by blast
      have "actions_of w (fst (track_batch e tid events w)) = Begin # t1 @ [Rollback, Respond 500]"
        using Some False ia Inl t1(1)
        by (simp add: track_batch_def batch_try_def actions_of_def world_defs)
      with t1(2) show ?thesis unfolding call_shape_def by blast
    next
      case (Inr rows)
      from insert_all_ok_trace[OF ia[unfolded Inr]]
      have tr: "trace w1 = trace w @ Begin # map Inserted rows" by (simp add: world_defs)
      have p1: "\<forall>a\<in>set (map Inserted rows). phase a = 1" by simp
      show ?thesis
      proof (cases "index_throws e")
        case True
        have "actions_of w (fst (track_batch e tid events w))
            = Begin # map Inserted rows @ [IndexRejected, Rollback, Respond 500]"
          using Some False ia Inr tr True
          by (simp add: track_batch_def batch_try_def bulkIndexEvents_def actions_of_def world_defs)
        with p1 show ?thesis unfolding call_shape_def by blast
      next
        case idx: False
        define fin where "fin = (if commit_throws e then [CommitRejected, Rollback, Respond 500]
                                 else [Commit, Respond 201])"
        have "actions_of w (fst (track_batch e tid events w))
            = Begin # map Inserted rows @ [Indexed (map (make_document tid) rows)]
                @ map (Broadcast tid) rows @ fin"
          using Some False ia Inr tr idx
          by (simp add: track_batch_def batch_try_def bulkIndexEvents_def actions_of_def
              world_defs broadcast_all_trace Let_def fin_def)
        moreover have "\<forall>a\<in>set (map (Broadcast tid) rows). phase a = 3" by simp
        moreover have "fin = [Commit, Respond 201] \<or> fin = [CommitRejected, Rollback, Respond 500]"
          by (simp add: fin_def)
        ultimately show ?thesis using p1 unfolding call_shape_def by blast
      qed
    qed
  qed
qed

lemma track_index_failure:
  assumes "index_throws e" "\<not> falsy (event body)" "\<not> isl (insert_event e 0 tid body)"
  shows "track e tid body w =
           (w\<lparr>console := console w @ [''OpenSearch indexing error'', ''Track error''],
              trace := trace w @ [Begin, Inserted (projr (insert_event e 0 tid body)),
                                  IndexRejected, Rollback, Respond 500]\<rparr>,
            Response 500 (ErrorReply ''Failed to track event''))"
  using assms
  by (cases "insert_event e 0 tid body")
     (simp_all add: track_def track_try_def indexEvent_def world_defs)

lemma batch_index_failure:
  assumes "index_throws e" "evts \<noteq> []"
    and "list_all (\<lambda>(k, evt). \<not> isl (insert_event e k tid evt)) (enumerate 0 evts)"
  shows "snd (track_batch e tid (Some evts) w) = Response 500 (ErrorReply ''Failed to track events'')
       \<and> events_table (fst (track_batch e tid (Some evts) w)) = events_table w
       \<and> indexed (fst (track_batch e tid (Some evts) w)) = indexed w
       \<and> written (fst (track_batch e tid (Some evts) w)) = written w
       \<and> console (fst (track_batch e tid (Some evts) w)) =
           console w @ [''OpenSearch bulk indexing error'', ''Batch track error'']
       \<and> Rollback \<in> set (actions_of w (fst (track_batch e tid (Some evts) w)))
       \<and> Commit \<notin> set (actions_of w (fst (track_batch e tid (Some evts) w)))"
proof -
  from insert_all_succeeds[OF assms(3), of "note_action Begin w"] obtain w1 rows where
    ia: "insert_all e tid 0 evts (note_action Begin w) = (w1, Inr rows)" by blast
  from insert_all_frame_aux[OF ia] have
    "events_table w1 = events_table w" "indexed w1 = indexed w" "written w1 = written w"
    "console w1 = console w"
    by (simp_all add: world_defs)
  moreover from insert_all_ok_trace[OF ia]
  have "trace w1 = trace w @ Begin # map Inserted rows" by (simp add: world_defs)
  then have "actions_of w (fst (track_batch e tid (Some evts) w))
      = Begin # map Inserted rows @ [IndexRejected, Rollback, Respond 500]"
    using assms(1,2) ia
    by (simp add: track_batch_def batch_try_def bulkIndexEvents_def actions_of_def world_defs)
  ultimately show ?thesis using assms(1,2) ia
    by (auto simp: track_batch_def batch_try_def bulkIndexEvents_def world_defs)
qed

lemma insert_event_write_throws [simp]:
  "insert_event (e\<lparr>write_throws := f\<rparr>) k tid evt = insert_event e k tid evt"
  by (simp add: insert_event_def split: option.splits)

lemma insert_all_write_throws [simp]:
  "insert_all (e\<lparr>write_throws := f\<rparr>) tid k evts w = insert_all e tid k evts w"
  by (induction evts arbitrary: k w) (simp_all split: sum.splits)

lemma track_write_throws:
  "snd (track (e\<lparr>write_throws := f\<rparr>) tid body w) = snd (track e tid body w)
   \<and> events_table (fst (track (e\<lparr>write_throws := f\<rparr>) tid body w))
     = events_table (fst (track e tid body w))"
  by (cases "insert_event e 0 tid body")
     (simp_all add: track_def track_try_def indexEvent_def world_defs Let_def)

lemma track_batch_write_throws:
  "snd (track_batch (e\<lparr>write_throws := f\<rparr>) tid events w) = snd (track_batch e tid events w)
   \<and> events_table (fst (track_batch (e\<lparr>write_throws := f\<rparr>) tid events w))
     = events_table (fst (track_batch e tid events w))"
proof (cases events)
  case None
  then show ?thesis by (simp add: track_batch_def)
next
  case (Some evts)
  obtain w1 r1 where ia: "insert_all e tid 0 evts (note_action Begin w) = (w1, r1)"
    by (cases "insert_all e tid 0 evts (note_action Begin w)")
  then show ?thesis using Some
    by (cases r1)
       (simp_all add: track_batch_def batch_try_def bulkIndexEvents_def world_defs Let_def)
qed

text \<open>
  The width of a column: a type of 100 characters followed by spaces is stored, cut to
  100 characters; a type of 101 letters is rejected.
\<close>

lemma insert_event_trailing_spaces:
  "\<not> isl (insert_event calm 0 7 (signup\<lparr>event := Some (replicate 100 (CHR ''a'') @ ''  '')\<rparr>))
   \<and> isl (insert_event calm 0 7 (signup\<lparr>event := Some (replicate 101 (CHR ''a''))\<rparr>))
   \<and> map event_type (events_table (fst (track calm 7
        (signup\<lparr>event := Some (replicate 100 (CHR ''a'') @ ''  '')\<rparr>) start)))
      = [replicate 100 (CHR ''a'')]"
  by (simp add: track_def track_try_def insert_event_def fits_def fits_nullable_def stored_def
      indexEvent_def broadcastEvent_def calm_def signup_def start_def falsy_def world_defs
      list_all_iff)

section \<open>Lemmas about runs\<close>

lemma isolated_mono: "isolated A w \<Longrightarrow> A \<subseteq> B \<Longrightarrow> isolated B w"
  unfolding isolated_def by blast

lemma isolated_cong:
  "isolated A w \<Longrightarrow> conns_of w' = conns_of w \<Longrightarrow> written w' = written w \<Longrightarrow> isolated A w'"
  unfolding isolated_def by simp

lemma conns_of_simps [simp]:
  "conns_of (note_action a w) = conns_of w"
  "conns_of (console_error l w) = conns_of w"
  "conns_of (w\<lparr>events_table := t\<rparr>) = conns_of w"
  "conns_of (w\<lparr>indexed := d\<rparr>) = conns_of w"
  by (simp_all add: conns_of_def world_defs)

lemma written_simps [simp]:
  "written (note_action a w) = written w"
  "written (console_error l w) = written w"
  by (simp_all add: world_defs)

lemma isolated_broadcastEvent:
  "isolated A w \<Longrightarrow> tenant_id row = tid \<Longrightarrow> isolated A (broadcastEvent e tid row w)"
  unfolding isolated_def
  by (auto simp: broadcastEvent_written broadcastEvent_conns)

lemma isolated_broadcast_all:
  "isolated A w \<Longrightarrow> \<forall>row\<in>set rows. tenant_id row = tid \<Longrightarrow> isolated A (broadcast_all e tid rows w)"
  unfolding broadcast_all_def
proof (induction rows arbitrary: w)
  case Nil
  then show ?case by simp
next
  case (Cons row rows)
  have "isolated A (broadcastEvent e tid row (note_action (Broadcast tid row) w))"
    using Cons.prems by (intro isolated_broadcastEvent) (auto elim: isolated_cong)
  with Cons show ?case by simp
qed

lemma isolated_stream_open:
  "isolated A w \<Longrightarrow> isolated (insert (r, tid) A) (stream_open cid r tid w)"
proof -
  have "set (Map_set k v m) \<subseteq> insert (k, v) (set m)" for k :: conn_id and v :: connection and m
    by (induction m) (auto split: if_splits)
  then show "isolated A w \<Longrightarrow> isolated (insert (r, tid) A) (stream_open cid r tid w)"
    unfolding isolated_def stream_open_def conns_of_def
    by (fastforce split: option.splits)
qed

lemma isolated_stream_close: "isolated A w \<Longrightarrow> isolated A (stream_close cid w)"
  unfolding isolated_def stream_close_def conns_of_def Map_delete_def
  by (auto split: option.splits)

lemma isolated_track: "isolated A w \<Longrightarrow> isolated A (fst (track e tid body w))"
proof -
  assume A: "isolated A w"
  show ?thesis
  proof (cases "insert_event e 0 tid body")
    case (Inl err)
    with A show ?thesis
      by (auto simp: track_def track_try_def elim: isolated_cong)
  next
    case (Inr row)
    then have t: "tenant_id row = tid" by (rule insert_event_tenant)
    have "isolated A (broadcastEvent e tid row (note_action (Broadcast tid row)
            (note_action (Indexed [make_document tid row])
              ((note_action (Inserted row) (note_action Begin w))\<lparr>indexed := indexed w @ [make_document tid row]\<rparr>))))"
      using A t by (intro isolated_broadcastEvent) (auto elim!: isolated_cong simp: world_defs conns_of_def)
    then show ?thesis using A Inr
      by (auto simp: track_def track_try_def indexEvent_def Let_def world_defs conns_of_def isolated_def)
  qed
qed

lemma isolated_track_batch: "isolated A w \<Longrightarrow> isolated A (fst (track_batch e tid events w))"
proof -
  assume A: "isolated A w"
  show ?thesis
  proof (cases events)
    case None
    with A show ?thesis by (simp add: track_batch_def)
  next
    case (Some evts)
    obtain w1 r1 where ia: "insert_all e tid 0 evts (note_action Begin w) = (w1, r1)"
      by (cases "insert_all e tid 0 evts (note_action Begin w)")
    from insert_all_frame_aux[OF ia] have fr: "conns_of w1 = conns_of w" "written w1 = written w"
      by (simp_all add: conns_of_def world_defs)
    show ?thesis
    proof (cases r1)
      case (Inl err)
      have "conns_of (fst (track_batch e tid events w)) = conns_of w"
           "written (fst (track_batch e tid events w)) = written w"
        using Some ia Inl fr by (simp_all add: track_batch_def batch_try_def)
      with A show ?thesis by (rule isolated_cong)
    next
      case (Inr rows)
      from insert_all_ok_tenant[OF ia[unfolded Inr]] have t: "\<forall>row\<in>set rows. tenant_id row = tid" .
      let ?w2 = "note_action (Indexed (map (make_document tid) rows))
                 (w1\<lparr>indexed := indexed w1 @ map (make_document tid) rows\<rparr>)"
      have "isolated A ?w2" using A fr by (intro isolated_cong[OF A]) simp_all
      then have b: "isolated A (broadcast_all e tid rows ?w2)"
        using t by (rule isolated_broadcast_all)
      show ?thesis
      proof (cases "length evts = 0 \<or> index_throws e")
        case True
        have "conns_of (fst (track_batch e tid events w)) = conns_of w"
             "written (fst (track_batch e tid events w)) = written w"
          using Some ia Inr fr True
          by (auto simp: track_batch_def batch_try_def bulkIndexEvents_def)
        with A show ?thesis by (rule isolated_cong)
      next
        case False
        have "conns_of (fst (track_batch e tid events w)) = conns_of (broadcast_all e tid rows ?w2)"
             "written (fst (track_batch e tid events w)) = written (broadcast_all e tid rows ?w2)"
          using Some ia Inr False
          by (simp_all add: track_batch_def batch_try_def bulkIndexEvents_def Let_def)
        with b show ?thesis by (rule isolated_cong)
      qed
    qed
  qed
qed

lemma isolated_run:
  "isolated A w \<Longrightarrow>
     isolated (A \<union> {(r, tid). \<exists>cid. Open cid r tid \<in> set reqs}) (run reqs w)"
proof (induction reqs arbitrary: A w)
  case Nil
  then show ?case by (simp add: run_def)
next
  case (Cons q reqs)
  define B where "B = (case q of Open cid r tid \<Rightarrow> insert (r, tid) A | _ \<Rightarrow> A)"
  have "isolated B (handle q w)"
  proof (cases q)
    case (Open cid r tid)
    with isolated_stream_open[OF Cons.prems, of r tid cid] show ?thesis by (simp add: B_def)
  next
    case (Close cid)
    with Cons.prems show ?thesis by (simp add: isolated_stream_close B_def)
  next
    case (Track e tid body)
    with Cons.prems show ?thesis by (simp add: isolated_track B_def)
  next
    case (TrackBatch e tid events)
    with Cons.prems show ?thesis by (simp add: isolated_track_batch B_def)
  qed
  from Cons.IH[OF this]
  have "isolated (B \<union> {(r, tid). \<exists>cid. Open cid r tid \<in> set reqs}) (run (q # reqs) w)"
    by (simp add: run_def)
  moreover have "B \<subseteq> A \<union> {(r, tid). \<exists>cid. Open cid r tid \<in> set (q # reqs)}"
    unfolding B_def by (cases q) auto
  moreover have "{(r, tid). \<exists>cid. Open cid r tid \<in> set reqs}
      \<subseteq> A \<union> {(r, tid). \<exists>cid. Open cid r tid \<in> set (q # reqs)}"
    by auto
  ultimately show ?case by (blast intro: isolated_mono)
qed

lemma isolated_start: "isolated {} start"
  by (simp add: isolated_def start_def conns_of_def)

lemma three_streams_eval:
  "three_streams = start\<lparr>written := [(11, Connected), (12, Connected), (13, Connected)],
      sseConnections := Some [(1, \<lparr>res = 11, tenantId = 7\<rparr>), (2, \<lparr>res = 12, tenantId = 7\<rparr>),
                              (3, \<lparr>res = 13, tenantId = 7\<rparr>)]\<rparr>"
  by (simp add: three_streams_def stream_open_def start_def)

lemma signup_inserted_index_down: "insert_event index_down k 7 signup = Inr (signup_row\<lparr>row_id := k\<rparr>)"
  by (simp add: insert_event_def fits_def fits_nullable_def index_down_def calm_def signup_def signup_row_def)

lemma signup_actions:
  "actions_of start (fst (track calm 7 signup start)) =
     [Begin, Inserted signup_row, Indexed [make_document 7 signup_row],
      Broadcast 7 signup_row, Commit, Respond 201]"
  by (simp add: track_actions insert_event_def fits_def fits_nullable_def calm_def signup_def signup_row_def falsy_def)

section \<open>Ingestion: index failures, ordering, atomicity, validation\<close>

text \<open>
  Claim C1, as amended. The index write is part of the transaction: when the inserts
  of an ingestion call (single or batch) succeed and the write to the index throws, the
  call answers 500, the transaction is rolled back and never committed, so that no row
  of the call is stored, nothing is written to the index or to any stream, and the
  failure is on the console.
\<close>

theorem index_failure_aborts_ingestion:
  assumes "index_throws e"
  shows "(\<not> falsy (event body) \<and> \<not> isl (insert_event e 0 tid body) \<longrightarrow>
            status (snd (track e tid body w)) = 500
            \<and> events_table (fst (track e tid body w)) = events_table w
            \<and> indexed (fst (track e tid body w)) = indexed w
            \<and> written (fst (track e tid body w)) = written w
            \<and> console (fst (track e tid body w)) =
                 console w @ [''OpenSearch indexing error'', ''Track error'']
            \<and> Rollback \<in> set (actions_of w (fst (track e tid body w)))
            \<and> Commit \<notin> set (actions_of w (fst (track e tid body w))))
       \<and> (evts \<noteq> [] \<and> list_all (\<lambda>(k, evt). \<not> isl (insert_event e k tid evt)) (enumerate 0 evts) \<longrightarrow>
            status (snd (track_batch e tid (Some evts) w)) = 500
            \<and> events_table (fst (track_batch e tid (Some evts) w)) = events_table w
            \<and> indexed (fst (track_batch e tid (Some evts) w)) = indexed w
            \<and> written (fst (track_batch e tid (Some evts) w)) = written w
            \<and> console (fst (track_batch e tid (Some evts) w)) =
                 console w @ [''OpenSearch bulk indexing error'', ''Batch track error'']
            \<and> Rollback \<in> set (actions_of w (fst (track_batch e tid (Some evts) w)))
            \<and> Commit \<notin> set (actions_of w (fst (track_batch e tid (Some evts) w))))"
  using track_index_failure[OF assms, of body tid w] batch_index_failure[OF assms, of evts tid w]
  by (simp add: actions_of_def)

theorem index_failure_aborts_ingestion_witness:
  "index_throws index_down
   \<and> \<not> falsy (event signup) \<and> \<not> isl (insert_event index_down 0 7 signup)
   \<and> status (snd (track index_down 7 signup start)) = 500
   \<and> events_table (fst (track index_down 7 signup start)) = []
   \<and> console (fst (track index_down 7 signup start))
       = [''OpenSearch indexing error'', ''Track error'']
   \<and> [signup, signup] \<noteq> []
   \<and> list_all (\<lambda>(k, evt). \<not> isl (insert_event index_down k 7 evt)) (enumerate 0 [signup, signup])
   \<and> status (snd (track_batch index_down 7 (Some [signup, signup]) start)) = 500
   \<and> events_table (fst (track_batch index_down 7 (Some [signup, signup]) start)) = []
   \<and> Rollback \<in> set (actions_of start (fst (track index_down 7 signup start)))
   \<and> Commit \<notin> set (actions_of start (fst (track index_down 7 signup start)))
   \<and> Rollback \<in> set (actions_of start (fst (track_batch index_down 7 (Some [signup, signup]) start)))
   \<and> Commit \<notin> set (actions_of start (fst (track_batch index_down 7 (Some [signup, signup]) start)))"
proof -
  have h1: "index_throws index_down"
    by (simp add: index_down_def calm_def)
  have h2: "\<not> falsy (event signup)"
    by (simp add: signup_def falsy_def)
  have h3: "\<not> isl (insert_event index_down 0 7 signup)"
    by (simp add: signup_inserted_index_down)
  have h4: "[signup, signup] \<noteq> []"
    by simp
  have h5: "list_all (\<lambda>(k, evt). \<not> isl (insert_event index_down k 7 evt)) (enumerate 0 [signup, signup])"
    by (simp add: signup_inserted_index_down)
  from index_failure_aborts_ingestion
    [OF h1, where body = signup and tid = 7 and w = start and evts = "[signup, signup]"]
    h2 h3 h4 h5
  have "status (snd (track index_down 7 signup start)) = 500
      \<and> events_table (fst (track index_down 7 signup start)) = events_table start
      \<and> console (fst (track index_down 7 signup start))
          = console start @ [''OpenSearch indexing error'', ''Track error'']
      \<and> status (snd (track_batch index_down 7 (Some [signup, signup]) start)) = 500
      \<and> events_table (fst (track_batch index_down 7 (Some [signup, signup]) start))
          = events_table start
      \<and> Rollback \<in> set (actions_of start (fst (track index_down 7 signup start)))
      \<and> Commit \<notin> set (actions_of start (fst (track index_down 7 signup start)))
      \<and> Rollback \<in> set (actions_of start (fst (track_batch index_down 7 (Some [signup, signup]) start)))
      \<and> Commit \<notin> set (actions_of start (fst (track_batch index_down 7 (Some [signup, signup]) start)))"
    by blast
  with h1 h2 h3 h4 h5 show ?thesis
    by (simp add: start_def)
qed

text \<open>
  Claim C1 as stated fails: with the index down, a single event whose insert succeeds
  is answered with 500 and is not stored, while the same call with the index up is
  answered with 201.
\<close>

theorem index_failure_fails_ingestion:
  "\<not> isl (insert_event index_down 0 7 signup)
   \<and> status (snd (track index_down 7 signup start)) = 500
   \<and> events_table (fst (track index_down 7 signup start)) = []
   \<and> status (snd (track calm 7 signup start)) = 201"
  by (simp add: track_def track_try_def insert_event_def fits_def fits_nullable_def indexEvent_def broadcastEvent_def
      index_down_def calm_def signup_def start_def falsy_def world_defs)

text \<open>
  Claim C2, as amended. Within every ingestion call the rows are inserted before the
  index write, the index write is performed before any broadcast, a broadcast is made
  only after an index write that succeeded, and the commit comes last: after the index
  write and after every broadcast of the call.
\<close>

theorem mirror_then_broadcast_then_commit:
  assumes "t = actions_of w (fst (track e tid body w))
         \<or> t = actions_of w (fst (track_batch e tid events w))"
  shows "(Inserted row \<in> set t \<and> Indexed docs \<in> set t \<longrightarrow> happens_before (Inserted row) (Indexed docs) t)
       \<and> (Broadcast tid' r \<in> set t \<longrightarrow>
            (\<exists>docs. happens_before (Indexed docs) (Broadcast tid' r) t) \<and> IndexRejected \<notin> set t)
       \<and> (Commit \<in> set t \<longrightarrow>
            (\<exists>docs. happens_before (Indexed docs) Commit t)
            \<and> (Broadcast tid' r \<in> set t \<longrightarrow> happens_before (Broadcast tid' r) Commit t))"
proof -
  from assms have sh: "call_shape t" using track_shape batch_shape by auto
  note so = shape_sorted[OF sh]
  have 1: "happens_before (Inserted row) (Indexed docs) t"
    if "Inserted row \<in> set t" "Indexed docs \<in> set t"
    using that by (intro phase_order_happens_before[OF so]) simp_all
  have 2: "(\<exists>docs. happens_before (Indexed docs) (Broadcast tid' r) t) \<and> IndexRejected \<notin> set t"
    if b: "Broadcast tid' r \<in> set t"
  proof -
    from shape_broadcast[OF sh b] obtain docs where "Indexed docs \<in> set t" "IndexRejected \<notin> set t"
      by blast
    moreover from this b have "happens_before (Indexed docs) (Broadcast tid' r) t"
      by (intro phase_order_happens_before[OF so]) simp_all
    ultimately show ?thesis by blast
  qed
  have 3: "\<exists>docs. happens_before (Indexed docs) Commit t" if c: "Commit \<in> set t"
  proof -
    from shape_commit[OF sh c] obtain docs where "Indexed docs \<in> set t" by blast
    with c have "happens_before (Indexed docs) Commit t"
      by (intro phase_order_happens_before[OF so]) simp_all
    then show ?thesis by blast
  qed
  have 4: "happens_before (Broadcast tid' r) Commit t"
    if "Commit \<in> set t" "Broadcast tid' r \<in> set t"
    using that by (intro phase_order_happens_before[OF so]) simp_all
  from 1 2 3 4 show ?thesis by blast
qed

theorem mirror_then_broadcast_then_commit_witness:
  "Inserted signup_row \<in> set (actions_of start (fst (track calm 7 signup start)))
   \<and> Indexed [make_document 7 signup_row] \<in> set (actions_of start (fst (track calm 7 signup start)))
   \<and> happens_before (Inserted signup_row) (Indexed [make_document 7 signup_row])
        (actions_of start (fst (track calm 7 signup start)))
   \<and> Broadcast 7 signup_row \<in> set (actions_of start (fst (track calm 7 signup start)))
   \<and> (\<exists>docs. happens_before (Indexed docs) (Broadcast 7 signup_row)
        (actions_of start (fst (track calm 7 signup start))))
   \<and> Commit \<in> set (actions_of start (fst (track calm 7 signup start)))
   \<and> (\<exists>docs. happens_before (Indexed docs) Commit
        (actions_of start (fst (track calm 7 signup start))))
   \<and> happens_before (Broadcast 7 signup_row) Commit
        (actions_of start (fst (track calm 7 signup start)))"
  using mirror_then_broadcast_then_commit
    [where t = "actions_of start (fst (track calm 7 signup start))" and w = start and e = calm
       and tid = 7 and body = signup and row = signup_row
       and docs = "[make_document 7 signup_row]" and tid' = 7 and r = signup_row]
  by (simp add: signup_actions)

text \<open>
  Claim C2 as stated fails: in a successful call the commit is not performed before the
  index write; it follows the index write and the broadcast.
\<close>

theorem commit_follows_mirror_and_broadcast:
  "actions_of start (fst (track calm 7 signup start)) =
     [Begin, Inserted signup_row, Indexed [make_document 7 signup_row],
      Broadcast 7 signup_row, Commit, Respond 201]
   \<and> \<not> happens_before Commit (Indexed [make_document 7 signup_row])
         (actions_of start (fst (track calm 7 signup start)))
   \<and> happens_before (Indexed [make_document 7 signup_row]) Commit
         (actions_of start (fst (track calm 7 signup start)))
   \<and> happens_before (Broadcast 7 signup_row) Commit
         (actions_of start (fst (track calm 7 signup start)))"
  by (simp add: signup_actions happens_before_def)

text \<open>
  Claim C3. Batch ingestion is all-or-nothing at the durable store: if the insert of
  any event of the batch fails, the transaction is rolled back and never committed,
  none of the events is stored (nor indexed, nor broadcast), and the call answers 500.
\<close>

theorem batch_all_or_nothing:
  assumes "k < length evts" and "isl (insert_event e k tid (evts ! k))"
  shows "status (snd (track_batch e tid (Some evts) w)) = 500
       \<and> events_table (fst (track_batch e tid (Some evts) w)) = events_table w
       \<and> indexed (fst (track_batch e tid (Some evts) w)) = indexed w
       \<and> written (fst (track_batch e tid (Some evts) w)) = written w
       \<and> Rollback \<in> set (actions_of w (fst (track_batch e tid (Some evts) w)))
       \<and> Commit \<notin> set (actions_of w (fst (track_batch e tid (Some evts) w)))"
proof -
  from assms have ne: "length evts \<noteq> 0" by auto
  from insert_all_fails[of k evts e 0 tid "note_action Begin w"] assms
  have "isl (snd (insert_all e tid 0 evts (note_action Begin w)))" by simp
  then obtain w1 err where ia: "insert_all e tid 0 evts (note_action Begin w) = (w1, Inl err)"
    by (cases "insert_all e tid 0 evts (note_action Begin w)") (auto simp: isl_def)
  from insert_all_frame_aux[OF ia] have fr:
    "events_table w1 = events_table w" "indexed w1 = indexed w" "written w1 = written w"
    by (simp_all add: world_defs)
  from insert_all_fail_trace[OF ia] obtain t1 where
    t1: "trace w1 = trace (note_action Begin w) @ t1" "\<forall>a\<in>set t1. phase a = 1" by blast
  have act: "actions_of w (fst (track_batch e tid (Some evts) w)) = Begin # t1 @ [Rollback, Respond 500]"
    using ne ia t1(1) by (simp add: track_batch_def batch_try_def actions_of_def world_defs)
  have "Commit \<notin> set t1" using t1(2) by fastforce
  with act fr ne ia show ?thesis
    by (simp add: track_batch_def batch_try_def world_defs)
qed

theorem batch_all_or_nothing_witness:
  "(1::nat) < length [signup, signup\<lparr>event := None\<rparr>]
   \<and> isl (insert_event calm 1 7 ([signup, signup\<lparr>event := None\<rparr>] ! 1))
   \<and> \<not> isl (insert_event calm 0 7 ([signup, signup\<lparr>event := None\<rparr>] ! 0))
   \<and> status (snd (track_batch calm 7 (Some [signup, signup\<lparr>event := None\<rparr>]) start)) = 500
   \<and> events_table (fst (track_batch calm 7 (Some [signup, signup\<lparr>event := None\<rparr>]) start)) = []
   \<and> Rollback \<in> set (actions_of start
        (fst (track_batch calm 7 (Some [signup, signup\<lparr>event := None\<rparr>]) start)))"
  using batch_all_or_nothing
    [where k = 1 and evts = "[signup, signup\<lparr>event := None\<rparr>]" and e = calm and tid = 7
       and w = start]
  by (simp add: insert_event_def fits_def fits_nullable_def calm_def signup_def start_def)

text \<open>
  Claim C5, on the code: the single-event route rejects an empty type with 400 and no
  effect, but the batch route does not check the type. A batch holding an event with
  the empty type is answered with 201, and the event is stored and indexed; a batch
  holding an event without a type is rejected by the database only, and answered with
  500.
\<close>

theorem batch_accepts_empty_type:
  "track calm 7 (signup\<lparr>event := Some ''''\<rparr>) start
     = (start, Response 400 (ErrorReply ''Event name required''))
   \<and> snd (track_batch calm 7 (Some [signup\<lparr>event := Some ''''\<rparr>]) start)
     = Response 201 (BatchReply [0] 1)
   \<and> map event_type (events_table (fst (track_batch calm 7 (Some [signup\<lparr>event := Some ''''\<rparr>]) start)))
     = ['''']
   \<and> length (indexed (fst (track_batch calm 7 (Some [signup\<lparr>event := Some ''''\<rparr>]) start))) = 1
   \<and> snd (track_batch calm 7 (Some [signup\<lparr>event := None\<rparr>]) start)
     = Response 500 (ErrorReply ''Failed to track events'')"
  by (simp add: track_def track_batch_def batch_try_def insert_event_def fits_def
      fits_nullable_def stored_def bulkIndexEvents_def broadcast_all_def broadcastEvent_def
      calm_def signup_def start_def falsy_def world_defs)

section \<open>The fan-out: tenant isolation and broken connections\<close>

text \<open>
  Claim C4. Tenant isolation of broadcast: \<open>broadcastEvent\<close> for a tenant writes the
  event only to streams registered with that tenant; and in every run of stream
  openings, closings and ingestion calls from the start of the server, a stream
  receives an event only if the stream was opened for the tenant that owns the event.
\<close>

theorem broadcast_tenant_isolation:
  "((r, EventMessage ev) \<in> set (drop (length (written w)) (written (broadcastEvent e tid ev w)))
      \<longrightarrow> (\<exists>cid conn. (cid, conn) \<in> set (conns_of w) \<and> res conn = r \<and> tenantId conn = tid))
   \<and> ((r, EventMessage row) \<in> set (written (run reqs start))
      \<longrightarrow> (\<exists>cid. Open cid r (tenant_id row) \<in> set reqs))"
proof (intro conjI impI)
  assume "(r, EventMessage ev) \<in> set (drop (length (written w)) (written (broadcastEvent e tid ev w)))"
  then show "\<exists>cid conn. (cid, conn) \<in> set (conns_of w) \<and> res conn = r \<and> tenantId conn = tid"
    by (fastforce simp: broadcastEvent_written)
next
  assume d: "(r, EventMessage row) \<in> set (written (run reqs start))"
  from isolated_run[OF isolated_start, of reqs]
  have "\<forall>d\<in>set (written (run reqs start)). \<forall>row. snd d = EventMessage row \<longrightarrow>
          (fst d, tenant_id row) \<in> {(r, tid). \<exists>cid. Open cid r tid \<in> set reqs}"
    by (simp add: isolated_def)
  with d show "\<exists>cid. Open cid r (tenant_id row) \<in> set reqs" by fastforce
qed

theorem broadcast_tenant_isolation_witness:
  "(9, EventMessage signup_row)
      \<in> set (drop (length (written (run two_tenants start)))
           (written (broadcastEvent calm 7 signup_row (run two_tenants start))))
   \<and> (\<exists>cid conn. (cid, conn) \<in> set (conns_of (run two_tenants start))
         \<and> res conn = 9 \<and> tenantId conn = 7)
   \<and> (9, EventMessage signup_row) \<in> set (written (run (two_tenants @ [Track calm 7 signup]) start))
   \<and> (\<exists>cid. Open cid 9 (tenant_id signup_row) \<in> set (two_tenants @ [Track calm 7 signup]))
   \<and> (10, EventMessage signup_row)
        \<notin> set (written (run (two_tenants @ [Track calm 7 signup]) start))"
  using broadcast_tenant_isolation
    [where r = 9 and ev = signup_row and w = "run two_tenants start" and e = calm and tid = 7
       and row = signup_row and reqs = "two_tenants @ [Track calm 7 signup]"]
  by (simp add: two_tenants_def run_def stream_open_def start_def broadcastEvent_def
      deliver_def conns_of_def track_def track_try_def indexEvent_def insert_event_def fits_def fits_nullable_def
      world_defs calm_def signup_def signup_row_def falsy_def)

text \<open>
  Claim C6. Broadcast survives a broken connection: every connection of the tenant
  whose write does not throw receives the event, whatever the other connections do; a
  connection whose write throws is removed from the registry; and the answer of an
  ingestion call, and what it stores, do not depend on which writes throw.
\<close>

theorem broadcast_survives_broken_connection:
  assumes "(cid, conn) \<in> set (conns_of w)" and "tenantId conn = tid"
  shows "(\<not> write_throws e (res conn) \<longrightarrow>
            (res conn, EventMessage ev)
              \<in> set (drop (length (written w)) (written (broadcastEvent e tid ev w))))
       \<and> (write_throws e (res conn) \<longrightarrow> cid \<notin> fst ` set (conns_of (broadcastEvent e tid ev w)))
       \<and> snd (track (e\<lparr>write_throws := f\<rparr>) tid' body w') = snd (track e tid' body w')
       \<and> events_table (fst (track (e\<lparr>write_throws := f\<rparr>) tid' body w'))
           = events_table (fst (track e tid' body w'))
       \<and> snd (track_batch (e\<lparr>write_throws := f\<rparr>) tid' events w')
           = snd (track_batch e tid' events w')
       \<and> events_table (fst (track_batch (e\<lparr>write_throws := f\<rparr>) tid' events w'))
           = events_table (fst (track_batch e tid' events w'))"
proof -
  have 1: "(res conn, EventMessage ev)
      \<in> set (drop (length (written w)) (written (broadcastEvent e tid ev w)))"
    if "\<not> write_throws e (res conn)"
    using assms that by (force simp: broadcastEvent_written)
  have 2: "cid \<notin> fst ` set (conns_of (broadcastEvent e tid ev w))" if "write_throws e (res conn)"
    using assms that by (force simp: broadcastEvent_conns dropped_def)
  from 1 2 track_write_throws[of f e tid' body w'] track_batch_write_throws[of f e tid' events w']
  show ?thesis by blast
qed

theorem broadcast_survives_broken_connection_witness:
  "(1, \<lparr>res = 11, tenantId = 7\<rparr>) \<in> set (conns_of three_streams)
   \<and> (2, \<lparr>res = 12, tenantId = 7\<rparr>) \<in> set (conns_of three_streams)
   \<and> write_throws (calm\<lparr>write_throws := (\<lambda>r. r = 12)\<rparr>) 12
   \<and> \<not> write_throws (calm\<lparr>write_throws := (\<lambda>r. r = 12)\<rparr>) 11
   \<and> (11, EventMessage signup_row)
        \<in> set (drop (length (written three_streams))
             (written (broadcastEvent (calm\<lparr>write_throws := (\<lambda>r. r = 12)\<rparr>) 7 signup_row three_streams)))
   \<and> 2 \<notin> fst ` set (conns_of (broadcastEvent (calm\<lparr>write_throws := (\<lambda>r. r = 12)\<rparr>) 7 signup_row three_streams))
   \<and> written (broadcastEvent (calm\<lparr>write_throws := (\<lambda>r. r = 12)\<rparr>) 7 signup_row three_streams)
       = written three_streams @ [(11, EventMessage signup_row), (13, EventMessage signup_row)]"
  using broadcast_survives_broken_connection
    [of 1 "\<lparr>res = 11, tenantId = 7\<rparr>" three_streams 7 "calm\<lparr>write_throws := (\<lambda>r. r = 12)\<rparr>" signup_row]
    broadcast_survives_broken_connection
    [of 2 "\<lparr>res = 12, tenantId = 7\<rparr>" three_streams 7 "calm\<lparr>write_throws := (\<lambda>r. r = 12)\<rparr>" signup_row]
  by (simp add: three_streams_eval conns_of_def start_def calm_def broadcastEvent_def deliver_def
      world_defs Map_delete_def)

section \<open>The client batching buffer\<close>

lemma flush_within_limit:
  assumes "eventQueue s \<noteq> []"
  shows "posted (fst (flush max_args post interim s)) = posted s @ [eventQueue s]
       \<and> (post (eventQueue s) = Inr data \<longrightarrow>
            eventQueue (fst (flush max_args post interim s)) = interim
            \<and> snd (flush max_args post interim s) = Inr (ServerData data))
       \<and> (post (eventQueue s) = Inl err \<and> length (eventQueue s) \<le> max_args \<longrightarrow>
            eventQueue (fst (flush max_args post interim s)) = eventQueue s @ interim
            \<and> eventQueue (fst (flush max_args post [] s)) = eventQueue s
            \<and> snd (flush max_args post interim s) = Inl (Rejected err))"
  using assms by (auto simp: flush_def handleError_def Let_def split: sum.splits)

text \<open>
  Claim C7, on the code: \<open>flush\<close> takes the whole queue and posts it as one batch,
  and puts the events back in order when the request fails, but only for a queue
  within the engine's limit on the arguments of a call. When the request for a longer
  queue fails, \<open>unshift(...events)\<close> throws: the events are not put back (the queue
  holds only what arrived meanwhile), the error handler is not reached, and the
  caller gets a \<open>RangeError\<close> in place of the request's error.
\<close>

theorem flush_loses_large_queue:
  assumes "max_args < length (eventQueue s)" and "post (eventQueue s) = Inl err"
  shows "posted (fst (flush max_args post interim s)) = posted s @ [eventQueue s]
       \<and> eventQueue (fst (flush max_args post interim s)) = interim
       \<and> sdk_console (fst (flush max_args post interim s)) = sdk_console s
       \<and> snd (flush max_args post interim s) = Inl RangeError"
  using assms by (auto simp: flush_def Let_def)

theorem flush_loses_large_queue_witness:
  "(125000::nat) < length (eventQueue \<lparr>eventQueue = replicate 130000 (0::nat), posted = [],
                                        sdk_console = []\<rparr>)
   \<and> (\<lambda>_. Inl \<lparr>response_error = None, message = ''timeout''\<rparr> :: http_error + unit)
        (replicate 130000 (0::nat)) = Inl \<lparr>response_error = None, message = ''timeout''\<rparr>
   \<and> eventQueue (fst (flush 125000
        (\<lambda>_. Inl \<lparr>response_error = None, message = ''timeout''\<rparr> :: http_error + unit) []
        \<lparr>eventQueue = replicate 130000 (0::nat), posted = [], sdk_console = []\<rparr>)) = []
   \<and> snd (flush 125000
        (\<lambda>_. Inl \<lparr>response_error = None, message = ''timeout''\<rparr> :: http_error + unit) []
        \<lparr>eventQueue = replicate 130000 (0::nat), posted = [], sdk_console = []\<rparr>)
       = Inl RangeError"
  using flush_loses_large_queue
    [where max_args = 125000
       and s = "\<lparr>eventQueue = replicate 130000 (0::nat), posted = [], sdk_console = []\<rparr>"
       and post = "\<lambda>_. Inl \<lparr>response_error = None, message = ''timeout''\<rparr> :: http_error + unit"
       and err = "\<lparr>response_error = None, message = ''timeout''\<rparr>" and interim = "[]"]
  by simp

section \<open>The query facade\<close>

text \<open>
  Claim C8, as amended. Each step of a funnel is counted by its own request. The
  first step's conversion rate is the number 100. For a later step the rate is the
  number 0 when the first step's count is 0; otherwise it is the string
  \<open>((count[i] / count[0]) * 100).toFixed(2)\<close> of double arithmetic: a decimal with two
  digits that, for counts below \<open>2 ^ 53\<close>, differs from \<open>100 * count[i] / count[0]\<close>
  by at most 0.005 and a relative error of \<open>2 ^ -51\<close>. At a tie the error of the
  doubles decides the last digit. The unique-user counts do not enter the rate.
\<close>

theorem funnel_conversion_rates:
  assumes "getFunnelAnalysis search events = Inr funnel"
  shows "length funnel = length events
       \<and> (j < length events \<longrightarrow>
            (\<exists>u. search j (events ! j) = Inr (funnel_count (funnel ! j), u)))
       \<and> (events \<noteq> [] \<longrightarrow> conversion_rate (funnel ! 0) = Some (RateNumber 100))
       \<and> (0 < j \<and> j < length events \<and> funnel_count (funnel ! 0) = 0 \<longrightarrow>
            conversion_rate (funnel ! j) = Some (RateNumber 0))
       \<and> (0 < j \<and> j < length events \<and> funnel_count (funnel ! 0) \<noteq> 0
            \<and> funnel_count (funnel ! 0) < 2 ^ 53 \<and> funnel_count (funnel ! j) < 2 ^ 53 \<longrightarrow>
            conversion_rate (funnel ! j) =
              Some (RateString (toFixed 2
                (js_mul (js_div (number_of (int (funnel_count (funnel ! j))))
                                (number_of (int (funnel_count (funnel ! 0)))))
                        (number_of 100))))
            \<and> (\<exists>h. conversion_rate (funnel ! j) = Some (RateString (Decimal False h))
                  \<and> \<bar>real h / 100
                       - 100 * real (funnel_count (funnel ! j)) / real (funnel_count (funnel ! 0))\<bar>
                     \<le> 1 / 200
                        + 100 * real (funnel_count (funnel ! j)) / real (funnel_count (funnel ! 0))
                          / 2 ^ 51))"
proof -
  from assms obtain rs where rs: "funnel_counts search 0 events = Inr rs"
    and f: "funnel = set_conversion_rates rs"
    by (auto simp: getFunnelAnalysis_def split: sum.splits)
  from funnel_counts_result[OF rs] have len: "length rs = length events"
    and q: "\<forall>j<length events. \<exists>u. search j (events ! j) = Inr (funnel_count (rs ! j), u)"
    by simp_all
  have c: "funnel_count (funnel ! k) = funnel_count (rs ! k)" if "k < length events" for k
    using that len by (simp add: f set_conversion_rates_nth)
  have 1: "length funnel = length events" by (simp add: f len)
  have 2: "\<exists>u. search j (events ! j) = Inr (funnel_count (funnel ! j), u)" if "j < length events"
    using q that c by simp
  have 3: "conversion_rate (funnel ! 0) = Some (RateNumber 100)" if "events \<noteq> []"
    using that len by (simp add: f set_conversion_rates_nth)
  have 4: "conversion_rate (funnel ! j) = Some (RateNumber 0)"
    if "0 < j" "j < length events" "funnel_count (funnel ! 0) = 0"
  proof -
    from that have "0 < length events" by linarith
    from c[OF this] that have "funnel_count (rs ! 0) = 0" by simp
    with that len show ?thesis by (simp add: f set_conversion_rates_nth)
  qed
  have 5: "conversion_rate (funnel ! j) =
              Some (RateString (toFixed 2
                (js_mul (js_div (number_of (int (funnel_count (funnel ! j))))
                                (number_of (int (funnel_count (funnel ! 0)))))
                        (number_of 100))))
         \<and> (\<exists>h. conversion_rate (funnel ! j) = Some (RateString (Decimal False h))
               \<and> \<bar>real h / 100
                    - 100 * real (funnel_count (funnel ! j)) / real (funnel_count (funnel ! 0))\<bar>
                  \<le> 1 / 200
                     + 100 * real (funnel_count (funnel ! j)) / real (funnel_count (funnel ! 0))
                       / 2 ^ 51)"
    if j: "0 < j" "j < length events" and nz: "funnel_count (funnel ! 0) \<noteq> 0"
  proof -
    define cj c0 where "cj = funnel_count (funnel ! j)" and "c0 = funnel_count (funnel ! 0)"
    from j have pos: "0 < length events" by linarith
    have eq: "funnel_count (rs ! j) = cj" "funnel_count (rs ! 0) = c0"
      using c[OF j(2)] c[OF pos] by (simp_all add: cj_def c0_def)
    from nz have c0: "0 < c0" by (simp add: c0_def)
    have r: "conversion_rate (funnel ! j) =
        Some (RateString (toFixed 2
          (js_mul (js_div (number_of (int cj)) (number_of (int c0))) (number_of 100))))"
      using j len c0 by (simp add: f set_conversion_rates_nth eq)
    from percentage_nat[OF c0, of False cj] obtain n d where
      p: "js_mul (js_div (Finite False cj 1) (Finite False c0 1)) (Finite False 100 1)
            = Finite False n d"
      and d: "0 < d"
      and e: "\<bar>real n / real d - 100 * real cj / real c0\<bar> \<le> 100 * real cj / real c0 / 2 ^ 51"
      by blast
    define h where "h = (2 * n * 10 ^ 2 + d) div (2 * d)"
    have t: "toFixed 2 (js_mul (js_div (number_of (int cj)) (number_of (int c0))) (number_of 100))
        = Decimal False h"
      using p by (simp add: number_of_def h_def)
    have "\<bar>real h / 10 ^ 2 - real n / real d\<bar> \<le> 1 / (2 * 10 ^ 2)"
      unfolding h_def by (rule toFixed_error[OF d])
    then have "\<bar>real h / 100 - real n / real d\<bar> \<le> 1 / 200" by simp
    with e have "\<bar>real h / 100 - 100 * real cj / real c0\<bar>
        \<le> 1 / 200 + 100 * real cj / real c0 / 2 ^ 51"
      by linarith
    with r t show ?thesis unfolding cj_def c0_def by auto
  qed
  from 1 2 3 4 5 show ?thesis by blast
qed

theorem funnel_conversion_rates_witness:
  "getFunnelAnalysis counted [''visit'', ''signup''] =
     Inr [\<lparr>funnel_step = 1, funnel_event = ''visit'', funnel_count = 3,
            funnel_unique_users = 3, conversion_rate = Some (RateNumber 100)\<rparr>,
          \<lparr>funnel_step = 2, funnel_event = ''signup'', funnel_count = 1,
            funnel_unique_users = 1, conversion_rate = Some (RateString (Decimal False 3333))\<rparr>]
   \<and> getFunnelAnalysis counted [''landing'', ''checkout''] =
     Inr [\<lparr>funnel_step = 1, funnel_event = ''landing'', funnel_count = 160,
            funnel_unique_users = 90, conversion_rate = Some (RateNumber 100)\<rparr>,
          \<lparr>funnel_step = 2, funnel_event = ''checkout'', funnel_count = 23,
            funnel_unique_users = 20, conversion_rate = Some (RateString (Decimal False 1437))\<rparr>]
   \<and> (\<exists>h. Some (RateString (Decimal False 1437)) = Some (RateString (Decimal False h))
         \<and> \<bar>real h / 100 - 100 * real 23 / real 160\<bar> \<le> 1 / 200 + 100 * real 23 / real 160 / 2 ^ 51)
   \<and> getFunnelAnalysis counted [''purchase'', ''signup''] =
     Inr [\<lparr>funnel_step = 1, funnel_event = ''purchase'', funnel_count = 0,
            funnel_unique_users = 0, conversion_rate = Some (RateNumber 100)\<rparr>,
          \<lparr>funnel_step = 2, funnel_event = ''signup'', funnel_count = 1,
            funnel_unique_users = 1, conversion_rate = Some (RateNumber 0)\<rparr>]"
proof -
  have a: "getFunnelAnalysis counted [''visit'', ''signup''] =
     Inr [\<lparr>funnel_step = 1, funnel_event = ''visit'', funnel_count = 3,
            funnel_unique_users = 3, conversion_rate = Some (RateNumber 100)\<rparr>,
          \<lparr>funnel_step = 2, funnel_event = ''signup'', funnel_count = 1,
            funnel_unique_users = 1, conversion_rate = Some (RateString (Decimal False 3333))\<rparr>]"
    by (simp add: getFunnelAnalysis_def counted_def set_conversion_rates_def number_of_def
        to_double_def nearest_even_def bit_length.simps)
  have b: "getFunnelAnalysis counted [''landing'', ''checkout''] =
     Inr [\<lparr>funnel_step = 1, funnel_event = ''landing'', funnel_count = 160,
            funnel_unique_users = 90, conversion_rate = Some (RateNumber 100)\<rparr>,
          \<lparr>funnel_step = 2, funnel_event = ''checkout'', funnel_count = 23,
            funnel_unique_users = 20, conversion_rate = Some (RateString (Decimal False 1437))\<rparr>]"
    by (simp add: getFunnelAnalysis_def counted_def set_conversion_rates_def number_of_def
        to_double_def nearest_even_def bit_length.simps)
  have c: "getFunnelAnalysis counted [''purchase'', ''signup''] =
     Inr [\<lparr>funnel_step = 1, funnel_event = ''purchase'', funnel_count = 0,
            funnel_unique_users = 0, conversion_rate = Some (RateNumber 100)\<rparr>,
          \<lparr>funnel_step = 2, funnel_event = ''signup'', funnel_count = 1,
            funnel_unique_users = 1, conversion_rate = Some (RateNumber 0)\<rparr>]"
    by (simp add: getFunnelAnalysis_def counted_def set_conversion_rates_def)
  from funnel_conversion_rates[OF b, where j = 1]
  have "\<exists>h. Some (RateString (Decimal False 1437)) = Some (RateString (Decimal False h))
         \<and> \<bar>real h / 100 - 100 * real 23 / real 160\<bar> \<le> 1 / 200 + 100 * real 23 / real 160 / 2 ^ 51"
    by (simp add: number_of_def to_double_def nearest_even_def bit_length.simps)
  with a b c show ?thesis by blast
qed

text \<open>
  Claim C8 as stated fails: with the counts 3 and 1 the second step's rate is the
  string 33.33, which is not \<open>100 * 1 / 3\<close>.
\<close>

theorem funnel_rate_is_rounded:
  "getFunnelAnalysis counted [''visit'', ''signup''] =
     Inr [\<lparr>funnel_step = 1, funnel_event = ''visit'', funnel_count = 3,
            funnel_unique_users = 3, conversion_rate = Some (RateNumber 100)\<rparr>,
          \<lparr>funnel_step = 2, funnel_event = ''signup'', funnel_count = 1,
            funnel_unique_users = 1, conversion_rate = Some (RateString (Decimal False 3333))\<rparr>]
   \<and> real 3333 / 100 \<noteq> 100 * real 1 / real 3"
  by (simp add: getFunnelAnalysis_def counted_def set_conversion_rates_def number_of_def
      to_double_def nearest_even_def bit_length.simps)

text \<open>
  Claim C9, as amended. For buckets whose counts sum to less than \<open>2 ^ 53\<close>, the
  growth rate is exactly the number 0 when the counts of the first half of the buckets
  (the first \<open>length div 2\<close>) sum to 0. Otherwise it is
  \<open>parseFloat((((secondHalf - firstHalf) / firstHalf) * 100).toFixed(1))\<close> of double
  arithmetic: a finite number that differs from the percentage change \<open>p\<close> by at most
  0.05 and \<open>(|p| + 1) / 2 ^ 50\<close>. At a tie the error of the doubles decides the
  last digit.
\<close>

theorem usage_growth_rate:
  assumes "(\<Sum>b\<leftarrow>events. int (bucket_count b)) < 2 ^ 53"
  shows
  "((\<Sum>b\<leftarrow>take (length events div 2) events. int (bucket_count b)) = 0 \<longrightarrow>
        growth_rate events = Finite False 0 1)
   \<and> ((\<Sum>b\<leftarrow>take (length events div 2) events. int (bucket_count b)) \<noteq> 0 \<longrightarrow>
        growth_rate events =
          parseFloat 1 (toFixed 1
            (js_mul (js_div (number_of ((\<Sum>b\<leftarrow>drop (length events div 2) events. int (bucket_count b))
                                          - (\<Sum>b\<leftarrow>take (length events div 2) events. int (bucket_count b))))
                            (number_of (\<Sum>b\<leftarrow>take (length events div 2) events. int (bucket_count b))))
                    (number_of 100)))
        \<and> (\<exists>negative n d. growth_rate events = Finite negative n d \<and> 0 < d
              \<and> \<bar>number_value negative n d
                   - 100 * (real_of_int (\<Sum>b\<leftarrow>drop (length events div 2) events. int (bucket_count b))
                            - real_of_int (\<Sum>b\<leftarrow>take (length events div 2) events. int (bucket_count b)))
                       / real_of_int (\<Sum>b\<leftarrow>take (length events div 2) events. int (bucket_count b))\<bar>
                 \<le> 1 / 20
                    + (\<bar>100 * (real_of_int (\<Sum>b\<leftarrow>drop (length events div 2) events. int (bucket_count b))
                                - real_of_int (\<Sum>b\<leftarrow>take (length events div 2) events. int (bucket_count b)))
                           / real_of_int (\<Sum>b\<leftarrow>take (length events div 2) events. int (bucket_count b))\<bar>
                       + 1) / 2 ^ 50))"
proof -
  define s1 where "s1 = (\<Sum>b\<leftarrow>take (length events div 2) events. int (bucket_count b))"
  define s2 where "s2 = (\<Sum>b\<leftarrow>drop (length events div 2) events. int (bucket_count b))"
  have nonneg: "0 \<le> s1" unfolding s1_def by (rule sum_list_nonneg) auto
  have g: "growth_rate events =
      (if s1 > 0
       then parseFloat 1 (toFixed 1 (js_mul (js_div (number_of (s2 - s1)) (number_of s1)) (number_of 100)))
       else number_of 0)"
    by (simp add: growth_rate_def foldl_count_sum Let_def s1_def s2_def)
  have "(s1 = 0 \<longrightarrow> growth_rate events = Finite False 0 1)
      \<and> (s1 \<noteq> 0 \<longrightarrow>
           growth_rate events =
             parseFloat 1 (toFixed 1 (js_mul (js_div (number_of (s2 - s1)) (number_of s1)) (number_of 100)))
           \<and> (\<exists>negative n d. growth_rate events = Finite negative n d \<and> 0 < d
                 \<and> \<bar>number_value negative n d - 100 * (real_of_int s2 - real_of_int s1) / real_of_int s1\<bar>
                    \<le> 1 / 20 + (\<bar>100 * (real_of_int s2 - real_of_int s1) / real_of_int s1\<bar> + 1) / 2 ^ 50))"
  proof (cases "s1 = 0")
    case True
    then show ?thesis by (simp add: g number_of_def)
  next
    case False
    with nonneg have pos: "0 < s1" by simp
    define a b sg where "a = nat \<bar>s2 - s1\<bar>" and "b = nat s1" and "sg = (s2 - s1 < 0)"
    have b: "0 < b" using pos by (simp add: b_def)
    have gr: "growth_rate events =
        parseFloat 1 (toFixed 1 (js_mul (js_div (number_of (s2 - s1)) (number_of s1)) (number_of 100)))"
      using pos by (simp add: g)
    from percentage_nat[OF b, of sg a] obtain n d where
      p: "js_mul (js_div (Finite sg a 1) (Finite False b 1)) (Finite False 100 1) = Finite sg n d"
      and d: "0 < d"
      and e: "\<bar>real n / real d - 100 * real a / real b\<bar> \<le> 100 * real a / real b / 2 ^ 51"
      by blast
    define h where "h = (2 * n * 10 + d) div (2 * d)"
    obtain vn vd where v: "to_double h 10 = (vn, vd)" by (cases "to_double h 10")
    have vd: "0 < vd" using to_double_denominator[of h 10] by (simp add: v)
    have no: "number_of (s2 - s1) = Finite sg a 1" "number_of s1 = Finite False b 1"
      "number_of 100 = Finite False 100 1"
      using pos by (simp_all add: number_of_def a_def b_def sg_def)
    have val: "growth_rate events = Finite sg vn vd"
      using p v by (simp add: gr no h_def)
    define E where "E = 100 * real a / real b"
    define u where "u = (1::real) / 2 ^ 53"
    have E: "0 \<le> E" by (simp add: E_def)
    have u: "0 < u" "u \<le> 1 / 8" by (simp_all add: u_def)
    have e1: "\<bar>real n / real d - E\<bar> \<le> E * (4 * u)"
      using e by (simp add: E_def u_def)
    have e2: "\<bar>real h / 10 - real n / real d\<bar> \<le> 1 / 20"
      using toFixed_error[OF d, of n 1] by (simp add: h_def)
    have e3: "\<bar>real vn / real vd - real h / 10\<bar> \<le> real h / 10 * u"
      using to_double_error[of "10 ^ 1" h] by (simp add: v fraction_def u_def)
    have Eu: "E * (4 * u) \<le> E" using E u by (simp add: mult_left_le)
    have hb: "real h / 10 \<le> 2 * E + 1" using e1 e2 Eu by linarith
    have "real h / 10 * u \<le> (2 * E + 1) * u"
      using hb u by (intro mult_right_mono) simp_all
    with e1 e2 e3 have "\<bar>real vn / real vd - E\<bar> \<le> 1 / 20 + E * (4 * u) + (2 * E + 1) * u"
      by linarith
    also have "\<dots> = 1 / 20 + (6 * E + 1) * u" by (simp add: algebra_simps)
    also have "\<dots> \<le> 1 / 20 + (8 * E + 8) * u"
      using E u by (intro add_left_mono mult_right_mono) simp_all
    also have "\<dots> = 1 / 20 + (E + 1) / 2 ^ 50" by (simp add: u_def algebra_simps)
    finally have bound: "\<bar>real vn / real vd - E\<bar> \<le> 1 / 20 + (E + 1) / 2 ^ 50" .
    define P where "P = 100 * (real_of_int s2 - real_of_int s1) / real_of_int s1"
    have ra: "real a = \<bar>real_of_int s2 - real_of_int s1\<bar>" "real b = real_of_int s1"
      using pos by (simp_all add: a_def b_def)
    have P: "P = (if sg then - E else E)" "\<bar>P\<bar> = E"
      using pos by (auto simp: P_def E_def ra sg_def abs_if field_simps)
    have "\<bar>number_value sg vn vd - P\<bar> = \<bar>real vn / real vd - E\<bar>"
      by (auto simp: number_value_def P(1))
    with bound P(2) have "\<bar>number_value sg vn vd - P\<bar> \<le> 1 / 20 + (\<bar>P\<bar> + 1) / 2 ^ 50"
      by simp
    with val vd gr False show ?thesis unfolding P_def by blast
  qed
  then show ?thesis unfolding s1_def s2_def .
qed

theorem usage_growth_rate_witness:
  "(\<Sum>b\<leftarrow>[day 0, day 5]. int (bucket_count b)) < 2 ^ 53
   \<and> (\<Sum>b\<leftarrow>take (length [day 0, day 5] div 2) [day 0, day 5]. int (bucket_count b)) = 0
   \<and> growth_rate [day 0, day 5] = Finite False 0 1
   \<and> (\<Sum>b\<leftarrow>[day 80, day 103]. int (bucket_count b)) < 2 ^ 53
   \<and> (\<Sum>b\<leftarrow>take (length [day 80, day 103] div 2) [day 80, day 103]. int (bucket_count b)) \<noteq> 0
   \<and> growth_rate [day 80, day 103] = parseFloat 1 (Decimal False 287)
   \<and> (\<exists>negative n d. growth_rate [day 80, day 103] = Finite negative n d \<and> 0 < d
         \<and> \<bar>number_value negative n d - 100 * (real_of_int 103 - real_of_int 80) / real_of_int 80\<bar>
            \<le> 1 / 20 + (\<bar>100 * (real_of_int 103 - real_of_int 80) / real_of_int 80\<bar> + 1) / 2 ^ 50)"
proof -
  have h1: "(\<Sum>b\<leftarrow>[day 0, day 5]. int (bucket_count b)) < 2 ^ 53"
    and h2: "(\<Sum>b\<leftarrow>[day 80, day 103]. int (bucket_count b)) < 2 ^ 53"
    by (simp_all add: day_def)
  have z: "(\<Sum>b\<leftarrow>take (length [day 0, day 5] div 2) [day 0, day 5]. int (bucket_count b)) = 0"
    and nz: "(\<Sum>b\<leftarrow>take (length [day 80, day 103] div 2) [day 80, day 103]. int (bucket_count b)) \<noteq> 0"
    by (simp_all add: day_def)
  have s: "(\<Sum>b\<leftarrow>take (length [day 80, day 103] div 2) [day 80, day 103]. int (bucket_count b)) = 80"
    "(\<Sum>b\<leftarrow>drop (length [day 80, day 103] div 2) [day 80, day 103]. int (bucket_count b)) = 103"
    by (simp_all add: day_def)
  have t: "toFixed 1 (js_mul (js_div (number_of (103 - 80)) (number_of 80)) (number_of 100))
      = Decimal False 287"
    by (simp add: number_of_def to_double_def nearest_even_def bit_length.simps)
  from usage_growth_rate[OF h1] z have a: "growth_rate [day 0, day 5] = Finite False 0 1"
    by blast
  from usage_growth_rate[OF h2] nz
  have "growth_rate [day 80, day 103] =
          parseFloat 1 (toFixed 1
            (js_mul (js_div (number_of ((\<Sum>b\<leftarrow>drop (length [day 80, day 103] div 2) [day 80, day 103]. int (bucket_count b))
                                          - (\<Sum>b\<leftarrow>take (length [day 80, day 103] div 2) [day 80, day 103]. int (bucket_count b))))
                            (number_of (\<Sum>b\<leftarrow>take (length [day 80, day 103] div 2) [day 80, day 103]. int (bucket_count b))))
                    (number_of 100)))
        \<and> (\<exists>negative n d. growth_rate [day 80, day 103] = Finite negative n d \<and> 0 < d
              \<and> \<bar>number_value negative n d
                   - 100 * (real_of_int (\<Sum>b\<leftarrow>drop (length [day 80, day 103] div 2) [day 80, day 103]. int (bucket_count b))
                            - real_of_int (\<Sum>b\<leftarrow>take (length [day 80, day 103] div 2) [day 80, day 103]. int (bucket_count b)))
                       / real_of_int (\<Sum>b\<leftarrow>take (length [day 80, day 103] div 2) [day 80, day 103]. int (bucket_count b))\<bar>
                 \<le> 1 / 20
                    + (\<bar>100 * (real_of_int (\<Sum>b\<leftarrow>drop (length [day 80, day 103] div 2) [day 80, day 103]. int (bucket_count b))
                                - real_of_int (\<Sum>b\<leftarrow>take (length [day 80, day 103] div 2) [day 80, day 103]. int (bucket_count b)))
                           / real_of_int (\<Sum>b\<leftarrow>take (length [day 80, day 103] div 2) [day 80, day 103]. int (bucket_count b))\<bar>
                       + 1) / 2 ^ 50)"
    by blast
  then have b: "growth_rate [day 80, day 103] = parseFloat 1 (Decimal False 287)
      \<and> (\<exists>negative n d. growth_rate [day 80, day 103] = Finite negative n d \<and> 0 < d
         \<and> \<bar>number_value negative n d - 100 * (real_of_int 103 - real_of_int 80) / real_of_int 80\<bar>
            \<le> 1 / 20 + (\<bar>100 * (real_of_int 103 - real_of_int 80) / real_of_int 80\<bar> + 1) / 2 ^ 50)"
    unfolding s t .
  from h1 h2 z nz a b show ?thesis by blast
qed

text \<open>
  Claim C9 as stated fails: for the buckets 3 and 4 the growth rate is the double
  nearest to 33.3, not the percentage change \<open>100 * (4 - 3) / 3\<close>.
\<close>

theorem growth_rate_is_rounded:
  "growth_rate [day 3, day 4] = parseFloat 1 (Decimal False 333)
   \<and> growth_rate [day 3, day 4] = Finite False 4686558362232422 140737488355328
   \<and> number_value False 4686558362232422 140737488355328 \<noteq> 100 * (4 - 3) / 3"
  by (simp add: growth_rate_def day_def number_of_def number_value_def to_double_def
      nearest_even_def bit_length.simps)

text \<open>
  Claim C10. In \<open>searchEvents\<close> a limit of 0 is treated as an absent limit: both give
  the page size 100, and no query has the page size 0. The route \<open>GET /events\<close>
  does the same replacement before the call.
\<close>

theorem searchEvents_limit_zero_is_default:
  "searchBody_size (query\<lparr>limit := Some (Num 0)\<rparr>) = Num 100
   \<and> searchBody_size (query\<lparr>limit := None\<rparr>) = Num 100
   \<and> searchBody_size query \<noteq> Num 0
   \<and> searchBody_size (events_route_query (Num 0) parsed_offset) = Num 100
   \<and> searchBody_size (events_route_query parsed_limit parsed_offset) \<noteq> Num 0"
  by (auto simp: searchBody_size_def or_default_def or_else_def events_route_query_def
      split: option.splits jsnum.splits)

end
